theory Spec2Isabelle
  imports Main "HOL-Library.Sublist" "HOL-Library.AList"
begin

section \<open>Values of the Python program\<close>

text \<open>
  A Python \<open>str\<close> is a sequence of Unicode code points, so it is modelled as a list of
  natural numbers; \<open>ustr\<close> embeds an ASCII literal. Exceptions are values: a function
  that can raise returns \<open>exn + 'a\<close>, with \<open>Inl\<close> for the raised exception.
\<close>

type_synonym ustring = "nat list"

definition ustr :: "string \<Rightarrow> ustring" where
  "ustr s = map of_char s"

datatype exn_class =
  ValueError | TypeError | OverflowError | KeyError | RuntimeError
  | RequestException | WebDriverException | OtherException

datatype exn = Exn (exn_kind: exn_class) (exn_message: ustring)

subsection \<open>datetime\<close>

text \<open>
  A \<open>datetime\<close> is its wall-clock reading, in microseconds since the first instant of
  year 1, together with the offset of its \<open>tzinfo\<close> from UTC (\<open>None\<close> for a naive
  value). The type covers the years 1 to 9999: a reading lies between \<open>0\<close> and
  \<open>max_wall\<close>, and arithmetic that leaves this range raises \<open>OverflowError\<close>.
  \<open>timedelta(days=d)\<close> raises \<open>OverflowError\<close> beyond 999999999 days. Ordering two
  values of which exactly one is naive raises \<open>TypeError\<close>, two aware values are
  ordered by their UTC instants and two naive ones by their readings. The values that
  the program orders carry the offset of a \<open>timezone\<close> object: \<open>timezone.utc\<close> from
  \<open>parse_date\<close>, the local zone from \<open>datetime.now().astimezone()\<close>.
\<close>

record datetime =
  wall :: int
  utcoffset :: "int option"

definition max_wall :: int where
  "max_wall = 315537897599999999"

definition day_us :: int where
  "day_us = 86400000000"

definition instant :: "datetime \<Rightarrow> int" where
  "instant dt = (case utcoffset dt of None \<Rightarrow> wall dt | Some off \<Rightarrow> wall dt - off)"

definition timedelta_days :: "int \<Rightarrow> exn + int" where
  "timedelta_days d =
     (if 999999999 < \<bar>d\<bar> then Inl (Exn OverflowError (ustr ''days must have magnitude <= 999999999''))
      else Inr (d * day_us))"

definition in_range :: "int \<Rightarrow> int option \<Rightarrow> exn + datetime" where
  "in_range w tz =
     (if 0 \<le> w \<and> w \<le> max_wall then Inr \<lparr>wall = w, utcoffset = tz\<rparr>
      else Inl (Exn OverflowError (ustr ''date value out of range'')))"

definition dt_sub :: "datetime \<Rightarrow> int \<Rightarrow> exn + datetime" where
  "dt_sub dt delta = in_range (wall dt - delta) (utcoffset dt)"

definition dt_ge :: "datetime \<Rightarrow> datetime \<Rightarrow> exn + bool" where
  "dt_ge a b =
     (if (utcoffset a = None) = (utcoffset b = None) then Inr (instant b \<le> instant a)
      else Inl (Exn TypeError (ustr ''can't compare offset-naive and offset-aware datetimes'')))"

definition utc :: int where
  "utc = 0"

text \<open>
  \<open>dt.astimezone(tz)\<close>, \<open>tz\<close> being a fixed offset: the offset of \<open>dt\<close> must lie
  strictly within 24 hours (\<open>ValueError\<close> otherwise), the value is first taken to UTC
  and then to \<open>tz\<close>, and each of the two steps must stay in the range of the type
  (\<open>OverflowError\<close> otherwise). A naive value is read in the zone of the system, which
  the model takes to be UTC.
\<close>

definition astimezone :: "datetime \<Rightarrow> int \<Rightarrow> exn + datetime" where
  "astimezone dt tz =
     (let off = (case utcoffset dt of None \<Rightarrow> 0 | Some off \<Rightarrow> off)
      in if \<not> (- day_us < off \<and> off < day_us)
         then Inl (Exn ValueError
                (ustr ''offset must be a timedelta strictly between -timedelta(hours=24) and timedelta(hours=24).''))
         else (case in_range (wall dt - off) (Some utc) of
                 Inl e \<Rightarrow> Inl e
               | Inr at_utc \<Rightarrow> in_range (wall at_utc + tz) (Some tz)))"

subsection \<open>utils.py: dates\<close>


text \<open>
  \<open>is_within_last_days\<close>: the first argument is the reading of
  \<open>datetime.now(timezone.utc)\<close>, used when \<open>now\<close> is \<open>None\<close>.
\<close>

definition is_within_last_days :: "int \<Rightarrow> datetime \<Rightarrow> int \<Rightarrow> datetime option \<Rightarrow> exn + bool" where
  "is_within_last_days clock dt last_days now =
     (let now' = (case now of None \<Rightarrow> \<lparr>wall = clock, utcoffset = Some utc\<rparr> | Some n \<Rightarrow> n)
      in case timedelta_days last_days of
           Inl e \<Rightarrow> Inl e
         | Inr delta \<Rightarrow>
             (case dt_sub now' delta of
                Inl e \<Rightarrow> Inl e
              | Inr cutoff \<Rightarrow> dt_ge dt cutoff))"

text \<open>
  The cutoff \<open>now - timedelta(days=w)\<close> exists when the window is a legal \<open>timedelta\<close>
  and the subtraction stays within the years 1 to 9999.
\<close>

definition cutoff_exists :: "datetime \<Rightarrow> int \<Rightarrow> bool" where
  "cutoff_exists now w \<longleftrightarrow>
     \<bar>w\<bar> \<le> 999999999 \<and> 0 \<le> wall now - w * day_us \<and> wall now - w * day_us \<le> max_wall"

subsection \<open>models.py\<close>

record SearchHit =
  url :: ustring
  title :: "ustring option"
  published_at :: "datetime option"
  snippet :: "ustring option"
  media_id :: "ustring option"

text \<open>
  \<open>ArticleRecord\<close> and \<open>MediaStatus\<close> share field names with \<open>SearchHit\<close> and with each
  other; a field is written with its record's name wherever two of them could be meant.
\<close>

record ArticleRecord =
  run_id :: ustring
  run_timestamp :: ustring
  media :: ustring
  url :: ustring
  title :: "ustring option"
  published_at :: "ustring option"
  date_unknown :: bool
  matched_keywords :: "ustring list"
  snippets :: "ustring list"
  per_article_pdf_path :: "ustring option"
  status :: ustring
  errors :: "ustring list"

record MediaStatus =
  media :: ustring
  status :: ustring
  errors :: "ustring list"

subsection \<open>media/base.py: the recency filter\<close>

text \<open>
  \<open>filter_hits_by_date\<close>: \<open>now\<close> is the reading of \<open>datetime.now().astimezone()\<close>.
  The loop appends to \<open>filtered\<close>; an exception of the comparison leaves the loop.
\<close>

fun filter_hits_by_date :: "datetime \<Rightarrow> SearchHit list \<Rightarrow> int \<Rightarrow> exn + SearchHit list" where
  "filter_hits_by_date now [] last_days = Inr []"
| "filter_hits_by_date now (hit # hits) last_days =
     (case SearchHit.published_at hit of
        None \<Rightarrow>
          (case filter_hits_by_date now hits last_days of
             Inl e \<Rightarrow> Inl e
           | Inr filtered \<Rightarrow> Inr (hit # filtered))
      | Some d \<Rightarrow>
          (case is_within_last_days (instant now) d last_days (Some now) of
             Inl e \<Rightarrow> Inl e
           | Inr recent \<Rightarrow>
               (case filter_hits_by_date now hits last_days of
                  Inl e \<Rightarrow> Inl e
                | Inr filtered \<Rightarrow> Inr (if recent then hit # filtered else filtered))))"

section \<open>utils.py: text\<close>

subsection \<open>The Unicode tables\<close>

text \<open>
  \<open>normalize_text\<close> calls \<open>unicodedata.normalize\<close>, \<open>unicodedata.combining\<close>,
  \<open>str.lower\<close> and the regular expression \<open>\s+\<close>. All four read the Unicode
  Character Database, which is not part of the repository, so the tables are a parameter:
  \<^item> \<open>decomposition c\<close>: the full compatibility decomposition of the code point \<open>c\<close>
    (\<open>[c]\<close> when it has none);
  \<^item> \<open>combining c\<close>: its canonical combining class, as \<open>unicodedata.combining\<close> returns it;
  \<^item> \<open>lower_at pre c post\<close>: what \<open>str.lower\<close> writes for \<open>c\<close> standing between
    \<open>pre\<close> and \<open>post\<close> (the context matters for the Greek final sigma);
  \<^item> \<open>isspace c\<close>: whether \<open>c\<close> is whitespace, for \<open>\s\<close> and for \<open>str.strip()\<close>.
\<close>

record ucd =
  decomposition :: "nat \<Rightarrow> nat list"
  combining :: "nat \<Rightarrow> nat"
  lower_at :: "nat list \<Rightarrow> nat \<Rightarrow> nat list \<Rightarrow> nat list"
  isspace :: "nat \<Rightarrow> bool"

text \<open>
  NFKD is the full decomposition of every code point followed by the canonical ordering:
  within each run of code points of non-zero combining class, a stable sort by class.
  \<open>place\<close> inserts one code point in front of an ordered text.
\<close>

fun place :: "(nat \<Rightarrow> nat) \<Rightarrow> nat \<Rightarrow> nat list \<Rightarrow> nat list" where
  "place ccc x [] = [x]"
| "place ccc x (y # ys) =
     (if ccc x \<noteq> 0 \<and> ccc y \<noteq> 0 \<and> ccc y < ccc x then y # place ccc x ys else x # y # ys)"

fun canonical_order :: "(nat \<Rightarrow> nat) \<Rightarrow> nat list \<Rightarrow> nat list" where
  "canonical_order ccc [] = []"
| "canonical_order ccc (x # xs) = place ccc x (canonical_order ccc xs)"

definition nfkd :: "ucd \<Rightarrow> ustring \<Rightarrow> ustring" where
  "nfkd U s = canonical_order (combining U) (concat (map (decomposition U) s))"

definition lower :: "ucd \<Rightarrow> ustring \<Rightarrow> ustring" where
  "lower U s = concat (map (\<lambda>i. lower_at U (take i s) (s ! i) (drop (Suc i) s)) [0..<length s])"

function ws_sub :: "(nat \<Rightarrow> bool) \<Rightarrow> ustring \<Rightarrow> ustring" where
  "ws_sub sp [] = []"
| "ws_sub sp (c # cs) = (if sp c then 32 # ws_sub sp (dropWhile sp cs) else c # ws_sub sp cs)"
  by pat_completeness auto
termination
  by (relation "measure (\<lambda>(sp, s). length s)") (auto simp: length_dropWhile_le less_Suc_eq_le)

definition strip :: "('a \<Rightarrow> bool) \<Rightarrow> 'a list \<Rightarrow> 'a list" where
  "strip p s = rev (dropWhile p (rev (dropWhile p s)))"

definition normalize_text :: "ucd \<Rightarrow> ustring \<Rightarrow> ustring" where
  "normalize_text U txt =
     (let normalized = nfkd U txt;
          normalized = filter (\<lambda>ch. combining U ch = 0) normalized;
          normalized = lower U normalized;
          normalized = strip (isspace U) (ws_sub (isspace U) normalized)
      in normalized)"

text \<open>\<open>re.sub(r"[^a-z0-9\-_. ]", "", s)\<close> keeps the code points of this class.\<close>

definition filename_char :: "nat \<Rightarrow> bool" where
  "filename_char c \<longleftrightarrow>
     (97 \<le> c \<and> c \<le> 122) \<or> (48 \<le> c \<and> c \<le> 57) \<or> c = 45 \<or> c = 95 \<or> c = 46 \<or> c = 32"

text \<open>The slice \<open>s[:n]\<close>: a negative \<open>n\<close> counts from the end.\<close>

definition slice_to :: "'a list \<Rightarrow> int \<Rightarrow> 'a list" where
  "slice_to s n = (if n < 0 then take (nat (int (length s) + n)) s else take (nat n) s)"

definition safe_filename :: "ucd \<Rightarrow> ustring \<Rightarrow> int \<Rightarrow> ustring" where
  "safe_filename U txt max_len =
     (let normalized = normalize_text U txt;
          normalized = filter filename_char normalized;
          normalized = strip (\<lambda>c. c = 45) (map (\<lambda>c. if c = 32 then 45 else c) normalized);
          normalized = (if normalized = [] then ustr ''item'' else normalized)
      in slice_to normalized max_len)"

text \<open>\<open>needle in haystack\<close> on strings.\<close>

fun is_substring :: "'a list \<Rightarrow> 'a list \<Rightarrow> bool" where
  "is_substring needle [] = (needle = [])"
| "is_substring needle (c # cs) = (prefix needle (c # cs) \<or> is_substring needle cs)"

fun unique_preserve_order_loop :: "ustring set \<Rightarrow> ustring list \<Rightarrow> ustring list \<Rightarrow> ustring list" where
  "unique_preserve_order_loop seen result [] = result"
| "unique_preserve_order_loop seen result (item # items) =
     (if item \<in> seen then unique_preserve_order_loop seen result items
      else unique_preserve_order_loop (insert item seen) (result @ [item]) items)"

definition unique_preserve_order :: "ustring list \<Rightarrow> ustring list" where
  "unique_preserve_order items = unique_preserve_order_loop {} [] items"

subsection \<open>Well-formed tables\<close>

text \<open>
  The facts about the Unicode Character Database that the theorems on \<open>normalize_text\<close>
  use. A code point is inert when normalisation leaves it alone: it has no decomposition,
  is no combining mark, and \<open>str.lower\<close> keeps it in every context. \<open>ucd_closed\<close> says:
  a full decomposition is made of code points without decomposition; lowercasing a
  decomposed base character gives inert code points; the space U+0020 is inert and is
  whitespace. \<open>ucd_basic_latin\<close> gives the entries of the letters A to Z and a to z, of
  U+00C8 (E with grave, decomposed into E and U+0300) and of the combining grave U+0300.
\<close>

definition inert :: "ucd \<Rightarrow> nat \<Rightarrow> bool" where
  "inert U c \<longleftrightarrow>
     decomposition U c = [c] \<and> combining U c = 0 \<and> (\<forall>pre post. lower_at U pre c post = [c])"

definition ucd_closed :: "ucd \<Rightarrow> bool" where
  "ucd_closed U \<longleftrightarrow>
     (\<forall>c. \<forall>d \<in> set (decomposition U c). decomposition U d = [d]) \<and>
     (\<forall>pre c post. decomposition U c = [c] \<and> combining U c = 0 \<longrightarrow>
        (\<forall>d \<in> set (lower_at U pre c post). inert U d)) \<and>
     inert U 32 \<and> isspace U 32"

fun collapsed :: "(nat \<Rightarrow> bool) \<Rightarrow> ustring \<Rightarrow> bool" where
  "collapsed sp [] = True"
| "collapsed sp (c # cs) =
     ((sp c \<longrightarrow> c = 32 \<and> (case cs of [] \<Rightarrow> True | d # _ \<Rightarrow> \<not> sp d)) \<and> collapsed sp cs)"

definition ucd_basic_latin :: "ucd \<Rightarrow> bool" where
  "ucd_basic_latin U \<longleftrightarrow>
     (\<forall>c. 65 \<le> c \<and> c \<le> 122 \<longrightarrow> decomposition U c = [c] \<and> combining U c = 0 \<and> \<not> isspace U c) \<and>
     (\<forall>pre c post. 65 \<le> c \<and> c \<le> 90 \<longrightarrow> lower_at U pre c post = [c + 32]) \<and>
     (\<forall>pre c post. 97 \<le> c \<and> c \<le> 122 \<longrightarrow> lower_at U pre c post = [c]) \<and>
     decomposition U 200 = [69, 768] \<and> combining U 768 \<noteq> 0"

definition ascii_lower :: "nat \<Rightarrow> nat" where
  "ascii_lower c = (if 65 \<le> c \<and> c \<le> 90 then c + 32 else c)"

text \<open>
  A fragment of the database, for evaluating the functions on concrete texts: Basic Latin,
  the no-break space U+00A0, U+00C8 and the combining marks U+0300 to U+0314; every other
  code point is taken as a caseless symbol.
\<close>

definition ucd_fragment :: ucd where
  "ucd_fragment =
     \<lparr>decomposition = (\<lambda>c. if c = 200 then [69, 768] else if c = 160 then [32] else [c]),
      combining = (\<lambda>c. if 768 \<le> c \<and> c \<le> 788 then 230 else 0),
      lower_at = (\<lambda>pre c post. if 65 \<le> c \<and> c \<le> 90 then [c + 32] else [c]),
      isspace = (\<lambda>c. c \<in> {9, 10, 11, 12, 13, 28, 29, 30, 31, 32, 133, 160})\<rparr>"

section \<open>config.py, media/registry.py, media/base.py\<close>

text \<open>The fields of \<open>RunConfig\<close> that the search and the runner read.\<close>

record RunConfig =
  "keywords" :: "ustring list"
  medias :: "ustring list"
  last_days :: int
  max_pages :: int
  max_results :: int
  debug :: bool
  pause :: bool
  pause_on_error :: bool
  search_use_selenium :: bool

record MediaDefinition =
  media_id :: ustring
  search_url :: ustring
  domain :: ustring
  search_result_selectors :: "ustring list"
  exclude_url_substrings :: "ustring list"

text \<open>
  What lies outside the program is a parameter, the \<open>site\<close>:
  \<^item> \<open>http_get u n\<close>: the outcome of the \<open>n\<close>-th \<open>requests.get\<close> on \<open>u\<close> with
    \<open>raise_for_status\<close>: the body of the response or the exception raised;
  \<^item> \<open>browser_page u\<close>: the outcome of loading \<open>u\<close> in the browser (\<open>driver.get\<close>,
    \<open>wait_for_ready\<close>, \<open>try_accept_cookies\<close>, \<open>dump_page\<close>) and reading
    \<open>driver.page_source\<close>;
  \<^item> \<open>format_url t k p\<close>: \<open>t.format(query=quote_plus(k), page=p)\<close>;
  \<^item> \<open>parse_search_results\<close> and \<open>detect_next_page\<close>: the two readers of the markup,
    which go through BeautifulSoup and are functions of the markup and the base URL;
  \<^item> \<open>local_now\<close>: the reading of \<open>datetime.now().astimezone()\<close>.
  The waits (\<open>time.sleep\<close>) and the operator pauses change no value and are left out of
  the search loop.
\<close>

record site =
  http_get :: "ustring \<Rightarrow> nat \<Rightarrow> exn + ustring"
  browser_page :: "ustring \<Rightarrow> exn + ustring"
  format_url :: "ustring \<Rightarrow> ustring \<Rightarrow> int option \<Rightarrow> ustring"
  parse_search_results :: "MediaDefinition \<Rightarrow> ustring \<Rightarrow> ustring \<Rightarrow> SearchHit list"
  detect_next_page :: "ustring \<Rightarrow> ustring \<Rightarrow> ustring option"
  local_now :: datetime

definition has_page_placeholder :: "MediaDefinition \<Rightarrow> bool" where
  "has_page_placeholder d = is_substring (ustr ''{page}'') (search_url d)"

definition build_search_urls :: "site \<Rightarrow> RunConfig \<Rightarrow> MediaDefinition \<Rightarrow> ustring \<Rightarrow> ustring list" where
  "build_search_urls W cfg d keyword =
     (if has_page_placeholder d
      then map (\<lambda>page. format_url W (search_url d) keyword (Some page)) [1..max_pages cfg]
      else [format_url W (search_url d) keyword None])"

subsection \<open>fetch_search_page\<close>

text \<open>
  The retry loop over \<open>range(1, 4)\<close>. The result comes with the trace of what the loop
  did, in order: each request with its attempt number, each \<open>time.sleep\<close> with its
  length in seconds. Only a \<open>RequestException\<close> is retried.
\<close>

datatype fetch_event = Request nat | Sleep nat

fun is_request :: "fetch_event \<Rightarrow> bool" where
  "is_request (Request n) = True"
| "is_request (Sleep s) = False"

fun fetch_attempts :: "(nat \<Rightarrow> exn + ustring) \<Rightarrow> ustring \<Rightarrow> nat list \<Rightarrow> (exn + ustring) \<times> fetch_event list" where
  "fetch_attempts get u [] =
     (Inl (Exn RuntimeError (ustr ''Failed to fetch search page: '' @ u)), [])"
| "fetch_attempts get u (attempt # attempts) =
     (case get attempt of
        Inr body \<Rightarrow> (Inr body, [Request attempt])
      | Inl e \<Rightarrow>
          (if exn_kind e = RequestException
           then (let (r, trace) = fetch_attempts get u attempts
                 in (r, Request attempt # Sleep (2 ^ attempt) # trace))
           else (Inl e, [Request attempt])))"

definition fetch_search_page :: "site \<Rightarrow> ustring \<Rightarrow> (exn + ustring) \<times> fetch_event list" where
  "fetch_search_page W u = fetch_attempts (http_get W u) u [1..<4]"

subsection \<open>The search loop\<close>

text \<open>
  \<open>BaseMediaScraper.search\<close> and \<open>LuxNewsRunner._search_with_selenium\<close> run the same
  loop and differ in how a page is fetched. \<open>search_pages\<close> is that loop: \<open>urls\<close> is
  what is left of the list the \<open>for\<close> statement walks (the loop appends to it),
  \<open>pages_seen\<close> the pages visited, in the order of the visits (the set of the source grows
  by exactly the page visited, so its size is the length of this list), \<open>seen_urls\<close> and
  \<open>hits\<close> as in the source. The result is what the function returns or raises, with the
  pages visited: one fetch each.
\<close>

record page_ops =
  fetch :: "ustring \<Rightarrow> exn + ustring"
  hits_of :: "ustring \<Rightarrow> ustring \<Rightarrow> exn + SearchHit list"
  next_of :: "ustring \<Rightarrow> ustring \<Rightarrow> ustring option"
  paged :: bool
  page_limit :: int
  result_limit :: int

function search_pages :: "page_ops \<Rightarrow> ustring list \<Rightarrow> ustring list \<Rightarrow> ustring set \<Rightarrow> SearchHit list
    \<Rightarrow> (exn + SearchHit list) \<times> ustring list" where
  "search_pages E [] pages_seen seen_urls hits = (Inr hits, pages_seen)"
| "search_pages E (u # urls) pages_seen seen_urls hits =
     (if u \<in> set pages_seen then search_pages E urls pages_seen seen_urls hits
      else
        (case fetch E u of
           Inl e \<Rightarrow> (Inl e, pages_seen @ [u])
         | Inr html \<Rightarrow>
             (case hits_of E html u of
                Inl e \<Rightarrow> (Inl e, pages_seen @ [u])
              | Inr page_hits \<Rightarrow>
                  (let new_hits = filter (\<lambda>hit. SearchHit.url hit \<notin> seen_urls) page_hits
                   in if new_hits = [] then (Inr hits, pages_seen @ [u])
                      else if result_limit E \<le> int (length (hits @ new_hits))
                      then (Inr (hits @ new_hits), pages_seen @ [u])
                      else if \<not> paged E
                      then (if page_limit E \<le> int (length (pages_seen @ [u]))
                            then (Inr (hits @ new_hits), pages_seen @ [u])
                            else (case next_of E html u of
                                    None \<Rightarrow> (Inr (hits @ new_hits), pages_seen @ [u])
                                  | Some next_url \<Rightarrow>
                                      (if next_url = [] \<or> next_url \<in> set (pages_seen @ [u])
                                       then (Inr (hits @ new_hits), pages_seen @ [u])
                                       else search_pages E (urls @ [next_url]) (pages_seen @ [u])
                                              (seen_urls \<union> set (map SearchHit.url new_hits))
                                              (hits @ new_hits))))
                      else search_pages E urls (pages_seen @ [u])
                             (seen_urls \<union> set (map SearchHit.url new_hits)) (hits @ new_hits)))))"
  by pat_completeness auto
termination
  by (relation "measures [\<lambda>(E, urls, pages_seen, seen_urls, hits). nat (page_limit E - int (length pages_seen)),
                          \<lambda>(E, urls, pages_seen, seen_urls, hits). length urls]")
    auto

definition search :: "site \<Rightarrow> RunConfig \<Rightarrow> MediaDefinition \<Rightarrow> ustring \<Rightarrow> int
    \<Rightarrow> (exn + SearchHit list) \<times> ustring list" where
  "search W cfg d keyword last_days' =
     search_pages
       \<lparr>fetch = (\<lambda>u. fst (fetch_search_page W u)),
        hits_of = (\<lambda>html u. filter_hits_by_date (local_now W) (parse_search_results W d html u) last_days'),
        next_of = detect_next_page W,
        paged = has_page_placeholder d,
        page_limit = max_pages cfg,
        result_limit = max_results cfg\<rparr>
       (build_search_urls W cfg d keyword) [] {} []"

definition search_with_selenium :: "site \<Rightarrow> RunConfig \<Rightarrow> MediaDefinition \<Rightarrow> ustring \<Rightarrow> int
    \<Rightarrow> (exn + SearchHit list) \<times> ustring list" where
  "search_with_selenium W cfg d keyword last_days' =
     search_pages
       \<lparr>fetch = browser_page W,
        hits_of = (\<lambda>html u. filter_hits_by_date (local_now W) (parse_search_results W d html u) last_days'),
        next_of = detect_next_page W,
        paged = has_page_placeholder d,
        page_limit = max_pages cfg,
        result_limit = max_results cfg\<rparr>
       (build_search_urls W cfg d keyword) [] {} []"

section \<open>core.py\<close>

subsection \<open>_collect_search_hits\<close>

text \<open>
  The dictionary \<open>hits_by_url\<close> keeps the order in which its keys were inserted, so it
  is an association list: \<open>AList.update\<close> overwrites an entry in place and appends a new
  one. Its values are the dictionaries built in the loop, with the four keys
  \<open>keywords\<close>, \<open>snippets\<close>, \<open>title\<close> and \<open>published_at\<close>. A test such as
  \<open>if hit.snippet\<close> holds for a string that is present and not empty.
\<close>

record payload =
  "keywords" :: "ustring set"
  snippets :: "ustring list"
  title :: "ustring option"
  published_at :: "datetime option"

definition truthy :: "ustring option \<Rightarrow> bool" where
  "truthy x = (case x of None \<Rightarrow> False | Some s \<Rightarrow> s \<noteq> [])"

definition merge_hit :: "ustring \<Rightarrow> SearchHit \<Rightarrow> (ustring \<times> payload) list \<Rightarrow> (ustring \<times> payload) list" where
  "merge_hit keyword hit hits_by_url =
     (let p = (case map_of hits_by_url (SearchHit.url hit) of
                 Some existing \<Rightarrow> existing
               | None \<Rightarrow> \<lparr>payload.keywords = {}, payload.snippets = [],
                           payload.title = SearchHit.title hit,
                           payload.published_at = SearchHit.published_at hit\<rparr>);
          p = p\<lparr>payload.keywords := insert keyword (payload.keywords p)\<rparr>;
          p = (case SearchHit.snippet hit of
                 None \<Rightarrow> p
               | Some s \<Rightarrow> if s \<noteq> [] then p\<lparr>payload.snippets := payload.snippets p @ [s]\<rparr> else p);
          p = (if truthy (SearchHit.title hit) \<and> \<not> truthy (payload.title p)
               then p\<lparr>payload.title := SearchHit.title hit\<rparr> else p);
          p = (if SearchHit.published_at hit \<noteq> None \<and> payload.published_at p = None
               then p\<lparr>payload.published_at := SearchHit.published_at hit\<rparr> else p)
      in AList.update (SearchHit.url hit) p hits_by_url)"

fun merge_hits :: "ustring \<Rightarrow> SearchHit list \<Rightarrow> (ustring \<times> payload) list \<Rightarrow> (ustring \<times> payload) list" where
  "merge_hits keyword [] hits_by_url = hits_by_url"
| "merge_hits keyword (hit # keyword_hits) hits_by_url =
     merge_hits keyword keyword_hits (merge_hit keyword hit hits_by_url)"

fun collect_keywords :: "(ustring \<Rightarrow> exn + SearchHit list) \<Rightarrow> ustring list \<Rightarrow> (ustring \<times> payload) list
    \<Rightarrow> exn + (ustring \<times> payload) list" where
  "collect_keywords search_fn [] hits_by_url = Inr hits_by_url"
| "collect_keywords search_fn (keyword # rest) hits_by_url =
     (case search_fn keyword of
        Inl e \<Rightarrow> Inl e
      | Inr keyword_hits \<Rightarrow> collect_keywords search_fn rest (merge_hits keyword keyword_hits hits_by_url))"

definition search_fn_of :: "site \<Rightarrow> RunConfig \<Rightarrow> MediaDefinition \<Rightarrow> int \<Rightarrow> ustring \<Rightarrow> exn + SearchHit list" where
  "search_fn_of W cfg d last_days' keyword =
     (let use_selenium = (search_use_selenium cfg \<or> debug cfg)
      in if use_selenium then fst (search_with_selenium W cfg d keyword last_days')
         else fst (search W cfg d keyword last_days'))"

definition collect_search_hits :: "site \<Rightarrow> RunConfig \<Rightarrow> MediaDefinition \<Rightarrow> int
    \<Rightarrow> exn + (ustring \<times> payload) list" where
  "collect_search_hits W cfg d last_days' =
     (case collect_keywords (search_fn_of W cfg d last_days') (RunConfig.keywords cfg) [] of
        Inl e \<Rightarrow> Inl e
      | Inr hits_by_url \<Rightarrow>
          Inr (map (\<lambda>(u, p). (u, p\<lparr>payload.snippets := unique_preserve_order (payload.snippets p)\<rparr>))
                 hits_by_url))"

subsection \<open>_process_article\<close>

text \<open>
  What the browser does with one article is a parameter, one field for each step of the
  \<open>try\<close> block that can raise:
  \<^item> \<open>load\<close>: \<open>driver.get\<close>, \<open>wait_for_ready\<close>, \<open>try_accept_cookies\<close> (the exception, if any);
  \<^item> \<open>detected_title\<close>: \<open>extract_title(driver)\<close>;
  \<^item> \<open>detected_date\<close>: \<open>self._extract_date(driver.page_source)\<close>, which reads the markup
    through BeautifulSoup;
  \<^item> \<open>dump\<close>: \<open>debug_manager.dump_page\<close> with the look-up of the media in the registry;
  \<^item> \<open>visible_text\<close>: \<open>extract_visible_text(driver)\<close>;
  \<^item> \<open>print_pdf\<close>: \<open>print_to_pdf(driver, pdf_path)\<close>;
  \<^item> \<open>error_artifacts\<close>: the list \<open>_format_error_artifacts\<close> returns (it catches every
    exception of its own);
  \<^item> \<open>isoformat\<close>: \<open>datetime.isoformat\<close>.
  The date of the search listing is converted with \<open>astimezone\<close> inside the \<open>try\<close>
  block, so an exception of the conversion gives a failed record too.
  The pauses for the operator return nothing and are left out. \<open>" ".join(s.split())\<close>
  is the text with each run of whitespace replaced by one space and the ends trimmed.
\<close>

record article_page =
  load :: "exn option"
  detected_title :: "exn + ustring option"
  detected_date :: "exn + ustring option"
  dump :: "exn option"
  visible_text :: "exn + ustring"
  print_pdf :: "exn option"
  error_artifacts :: "ustring list"
  isoformat :: "datetime \<Rightarrow> ustring"

definition failed_record :: "article_page \<Rightarrow> ustring \<Rightarrow> ustring \<Rightarrow> ustring \<Rightarrow> ustring \<Rightarrow> exn
    \<Rightarrow> ustring option \<Rightarrow> ustring option \<Rightarrow> bool \<Rightarrow> ustring list \<Rightarrow> ArticleRecord" where
  "failed_record page run_id' run_timestamp' media_id' url' exc title' published_at' date_unknown' snippets' =
     \<lparr>run_id = run_id', run_timestamp = run_timestamp', ArticleRecord.media = media_id',
      ArticleRecord.url = url', ArticleRecord.title = title',
      ArticleRecord.published_at = published_at', date_unknown = date_unknown',
      matched_keywords = [], ArticleRecord.snippets = snippets', per_article_pdf_path = None,
      ArticleRecord.status = ustr ''failed'',
      ArticleRecord.errors = exn_message exc # error_artifacts page\<rparr>"

definition process_article :: "ucd \<Rightarrow> article_page \<Rightarrow> ustring \<Rightarrow> ustring \<Rightarrow> ustring list \<Rightarrow> ustring list
    \<Rightarrow> ustring option \<Rightarrow> datetime option \<Rightarrow> ustring \<Rightarrow> ustring \<Rightarrow> ustring \<Rightarrow> ArticleRecord" where
  "process_article U page media_id' url' keywords' snippets' search_title search_date pdf_dir
      run_id' run_timestamp' =
     (let failed = failed_record page run_id' run_timestamp' media_id' url'
      in case load page of
           Some e \<Rightarrow> failed e search_title None True snippets'
         | None \<Rightarrow>
        (case detected_title page of
           Inl e \<Rightarrow> failed e search_title None True snippets'
         | Inr found_title \<Rightarrow>
        (let title' = (if truthy found_title then found_title else search_title)
         in case detected_date page of
              Inl e \<Rightarrow> failed e title' None True snippets'
            | Inr found_date \<Rightarrow>
        (case (if truthy found_date then Inr (found_date, False)
               else (case search_date of
                       Some sd \<Rightarrow>
                         (case astimezone sd utc of
                            Inl e \<Rightarrow> Inl e
                          | Inr at_utc \<Rightarrow> Inr (Some (isoformat page at_utc), False))
                     | None \<Rightarrow> Inr (None, True))) of
           Inl e \<Rightarrow> failed e title' None True snippets'
         | Inr (published_at', date_unknown') \<Rightarrow>
        (case dump page of
              Some e \<Rightarrow> failed e title' published_at' date_unknown' snippets'
            | None \<Rightarrow>
        (case visible_text page of
           Inl e \<Rightarrow> failed e title' published_at' date_unknown' snippets'
         | Inr visible \<Rightarrow>
        (let normalized_text = normalize_text U visible;
             matched = filter (\<lambda>kw. is_substring (normalize_text U kw) normalized_text) keywords';
             snippets'' =
               (if snippets' = [] \<and> visible \<noteq> []
                then (let snippet_text = take 200 (strip (isspace U) (ws_sub (isspace U) visible))
                      in if snippet_text \<noteq> [] then [snippet_text] else snippets')
                else snippets')
         in if matched = []
            then \<lparr>run_id = run_id', run_timestamp = run_timestamp', ArticleRecord.media = media_id',
                  ArticleRecord.url = url', ArticleRecord.title = title',
                  ArticleRecord.published_at = published_at', date_unknown = date_unknown',
                  matched_keywords = [], ArticleRecord.snippets = snippets'',
                  per_article_pdf_path = None, ArticleRecord.status = ustr ''skipped'',
                  ArticleRecord.errors = [ustr ''No keyword match found in visible text.'']\<rparr>
            else
              (let safe_title = safe_filename U
                     (case title' of None \<Rightarrow> url' | Some t \<Rightarrow> if t \<noteq> [] then t else url') 120;
                   pdf_path = pdf_dir @ ustr ''/'' @ media_id' @ ustr ''_'' @ safe_title @ ustr ''.pdf''
               in case print_pdf page of
                    Some e \<Rightarrow> failed e title' published_at' date_unknown' snippets''
                  | None \<Rightarrow>
                      \<lparr>run_id = run_id', run_timestamp = run_timestamp',
                       ArticleRecord.media = media_id', ArticleRecord.url = url',
                       ArticleRecord.title = title', ArticleRecord.published_at = published_at',
                       date_unknown = date_unknown', matched_keywords = matched,
                       ArticleRecord.snippets = snippets'', per_article_pdf_path = Some pdf_path,
                       ArticleRecord.status = ustr ''ok'', ArticleRecord.errors = []\<rparr>))))))))"

subsection \<open>run_job\<close>

text \<open>
  The loop of \<open>run_job\<close> over the configured media, with what it accumulates: the article
  records and the media statuses. The registry of media definitions, the site and the
  browser's view of each article are parameters; the summary and the merged PDF are
  built from the records after the loop and are not modelled. \<open>str\<close> of a \<open>KeyError\<close>
  is its message between single quotes (code point 39).
\<close>

definition get_scraper :: "(ustring \<Rightarrow> MediaDefinition option) \<Rightarrow> ustring \<Rightarrow> exn + MediaDefinition" where
  "get_scraper registry media_id' =
     (case registry media_id' of
        None \<Rightarrow> Inl (Exn KeyError ([39] @ ustr ''Unknown media: '' @ media_id' @ [39]))
      | Some d \<Rightarrow> Inr d)"

fun process_results :: "ucd \<Rightarrow> RunConfig \<Rightarrow> (ustring \<Rightarrow> article_page) \<Rightarrow> ustring \<Rightarrow> ustring \<Rightarrow> ustring
    \<Rightarrow> ustring \<Rightarrow> (ustring \<times> payload) list \<Rightarrow> MediaStatus \<Rightarrow> ArticleRecord list \<times> MediaStatus" where
  "process_results U cfg pages media_id' pdf_dir run_id' run_timestamp' [] st = ([], st)"
| "process_results U cfg pages media_id' pdf_dir run_id' run_timestamp' ((u, p) # results) st =
     (let record = process_article U (pages u) media_id' u (RunConfig.keywords cfg)
            (payload.snippets p) (payload.title p) (payload.published_at p) pdf_dir run_id'
            run_timestamp';
          st' = (if ArticleRecord.status record = ustr ''failed''
                 then st\<lparr>MediaStatus.status := ustr ''partial'',
                         MediaStatus.errors := MediaStatus.errors st @ ArticleRecord.errors record\<rparr>
                 else st);
          (records, st'') = process_results U cfg pages media_id' pdf_dir run_id' run_timestamp'
            results st'
      in (record # records, st''))"

definition run_media :: "ucd \<Rightarrow> site \<Rightarrow> RunConfig \<Rightarrow> (ustring \<Rightarrow> MediaDefinition option)
    \<Rightarrow> (ustring \<Rightarrow> ustring \<Rightarrow> article_page) \<Rightarrow> ustring \<Rightarrow> ustring \<Rightarrow> ustring \<Rightarrow> ustring
    \<Rightarrow> ArticleRecord list \<times> MediaStatus" where
  "run_media U W cfg registry pages pdf_dir run_id' run_timestamp' media_id' =
     (let st = \<lparr>MediaStatus.media = media_id', MediaStatus.status = ustr ''ok'',
                MediaStatus.errors = []\<rparr>
      in case get_scraper registry media_id' of
           Inl exc \<Rightarrow>
             ([], st\<lparr>MediaStatus.status := ustr ''failed'', MediaStatus.errors := [exn_message exc]\<rparr>)
         | Inr scraper \<Rightarrow>
             (case collect_search_hits W cfg scraper (last_days cfg) of
                Inl exc \<Rightarrow>
                  ([], st\<lparr>MediaStatus.status := ustr ''failed'',
                           MediaStatus.errors :=
                             [ustr ''Search failed for '' @ media_id' @ ustr '': '' @ exn_message exc]\<rparr>)
              | Inr results \<Rightarrow>
                  process_results U cfg (pages media_id') media_id' pdf_dir run_id' run_timestamp'
                    results st))"

fun run_medias :: "ucd \<Rightarrow> site \<Rightarrow> RunConfig \<Rightarrow> (ustring \<Rightarrow> MediaDefinition option)
    \<Rightarrow> (ustring \<Rightarrow> ustring \<Rightarrow> article_page) \<Rightarrow> ustring \<Rightarrow> ustring \<Rightarrow> ustring \<Rightarrow> ustring list
    \<Rightarrow> ArticleRecord list \<times> MediaStatus list" where
  "run_medias U W cfg registry pages pdf_dir run_id' run_timestamp' [] = ([], [])"
| "run_medias U W cfg registry pages pdf_dir run_id' run_timestamp' (media_id' # rest) =
     (let (records, st) = run_media U W cfg registry pages pdf_dir run_id' run_timestamp' media_id';
          (records', statuses) = run_medias U W cfg registry pages pdf_dir run_id' run_timestamp' rest
      in (records @ records', st # statuses))"

definition run_job :: "ucd \<Rightarrow> site \<Rightarrow> RunConfig \<Rightarrow> (ustring \<Rightarrow> MediaDefinition option)
    \<Rightarrow> (ustring \<Rightarrow> ustring \<Rightarrow> article_page) \<Rightarrow> ustring \<Rightarrow> ustring \<Rightarrow> ustring
    \<Rightarrow> ArticleRecord list \<times> MediaStatus list" where
  "run_job U W cfg registry pages pdf_dir run_id' run_timestamp' =
     run_medias U W cfg registry pages pdf_dir run_id' run_timestamp' (medias cfg)"

subsection \<open>Reading the merged dictionary\<close>

text \<open>The keyword set stored for a URL (empty when the URL has no entry).\<close>

definition keywords_of :: "(ustring \<times> payload) list \<Rightarrow> ustring \<Rightarrow> ustring set" where
  "keywords_of hits_by_url u =
     (case map_of hits_by_url u of None \<Rightarrow> {} | Some p \<Rightarrow> payload.keywords p)"

text \<open>The keywords of a list whose search round produced a hit with the URL \<open>u\<close>.\<close>

definition producers :: "(ustring \<Rightarrow> exn + SearchHit list) \<Rightarrow> ustring list \<Rightarrow> ustring \<Rightarrow> ustring set" where
  "producers search_fn ks u =
     {k \<in> set ks. \<exists>hs. search_fn k = Inr hs \<and> u \<in> SearchHit.url ` set hs}"

section \<open>Example data\<close>

text \<open>
  A media definition without a page placeholder, a configuration, and two sites for
  evaluating the functions: on \<open>example_site\<close> every page answers with its own URL as
  markup, lists one article shared by all pages and one of its own, and links to a next
  page; on \<open>site_down\<close> every request fails at the network layer.
\<close>

definition example_media :: MediaDefinition where
  "example_media =
     \<lparr>media_id = ustr ''tageblatt.lu'', search_url = ustr ''https://tageblatt.lu/?s={query}'',
      domain = ustr ''tageblatt.lu'', search_result_selectors = [], exclude_url_substrings = []\<rparr>"

definition example_config :: RunConfig where
  "example_config =
     \<lparr>RunConfig.keywords = [ustr ''bgl'', ustr ''bcl''],
      medias = [ustr ''tageblatt.lu'', ustr ''nowhere.lu''],
      last_days = 2, max_pages = 2, max_results = 200, debug = False, pause = False,
      pause_on_error = False, search_use_selenium = False\<rparr>"

definition example_hit :: "ustring \<Rightarrow> SearchHit" where
  "example_hit u =
     \<lparr>SearchHit.url = u, SearchHit.title = None, SearchHit.published_at = None,
      SearchHit.snippet = None, SearchHit.media_id = None\<rparr>"

text \<open>
  Readings of the clock: 3 November 2026, 12:00 at UTC+2 (\<open>example_now\<close>), the instant
  two days before it and the microsecond before that one, both in UTC.
\<close>

definition example_now :: datetime where
  "example_now = \<lparr>wall = 63929304000000000, utcoffset = Some 7200000000\<rparr>"

definition two_days_before :: datetime where
  "two_days_before = \<lparr>wall = 63929124000000000, utcoffset = Some 0\<rparr>"

definition just_too_old :: datetime where
  "just_too_old = \<lparr>wall = 63929123999999999, utcoffset = Some 0\<rparr>"



definition example_site :: site where
  "example_site =
     \<lparr>http_get = (\<lambda>u n. Inr u),
      browser_page = (\<lambda>u. Inr u),
      format_url = (\<lambda>t k p. ustr ''s='' @ k),
      parse_search_results = (\<lambda>d html u. [example_hit (ustr ''story''), example_hit (html @ ustr ''/a'')]),
      detect_next_page = (\<lambda>html u. Some (u @ ustr ''+'')),
      local_now = example_now\<rparr>"

definition site_down :: site where
  "site_down = example_site\<lparr>http_get := (\<lambda>u n. Inl (Exn RequestException (ustr ''timeout'')))\<rparr>"

text \<open>
  On \<open>flaky_site\<close> the first request for a page fails at the network layer and the second
  one is answered.
\<close>

definition flaky_site :: site where
  "flaky_site = example_site\<lparr>http_get :=
     (\<lambda>u n. if n < 2 then Inl (Exn RequestException (ustr ''timeout'')) else Inr u)\<rparr>"

definition example_registry :: "ustring \<Rightarrow> MediaDefinition option" where
  "example_registry m = (if m = ustr ''tageblatt.lu'' then Some example_media else None)"

definition example_page :: article_page where
  "example_page =
     \<lparr>load = None, detected_title = Inr (Some (ustr ''Rates'')), detected_date = Inr None,
      dump = None, visible_text = Inr (ustr ''The ABCLX fund''), print_pdf = None,
      error_artifacts = [ustr ''URL: story''], isoformat = (\<lambda>d. ustr ''2024-01-02T08:00:00+00:00'')\<rparr>"

definition printer_down :: article_page where
  "printer_down = example_page\<lparr>print_pdf := Some (Exn WebDriverException (ustr ''printToPDF failed''))\<rparr>"

section \<open>Recency\<close>

lemma is_within_last_days_value:
  "is_within_last_days clock t w (Some now)
     = (if cutoff_exists now w
        then dt_ge t \<lparr>wall = wall now - w * day_us, utcoffset = utcoffset now\<rparr>
        else Inl (Exn OverflowError
               (if 999999999 < \<bar>w\<bar> then ustr ''days must have magnitude <= 999999999''
                else ustr ''date value out of range'')))"
  by (simp add: is_within_last_days_def timedelta_days_def dt_sub_def in_range_def
      cutoff_exists_def not_le)

text \<open>
  C4, as the code has it. For a timestamp \<open>t\<close>, a window of \<open>w\<close> days and a reference
  instant \<open>now\<close> (both aware, or both naive) such that \<open>now\<close> minus \<open>w\<close> days is a
  datetime, \<open>is_within_last_days\<close> returns true exactly when \<open>t\<close> is not earlier than
  \<open>now\<close> minus \<open>w\<close> days, and the timestamp \<open>now - w days\<close> itself is recent. When
  \<open>now\<close> minus \<open>w\<close> days is no datetime (a window beyond 999999999 days, or a cutoff
  outside the years 1 to 9999), the function raises \<open>OverflowError\<close>; when the cutoff
  exists and exactly one of \<open>t\<close> and \<open>now\<close> is naive, it raises \<open>TypeError\<close>.
\<close>

theorem is_within_last_days_iff:
  "(cutoff_exists now w \<and> (utcoffset t = None) = (utcoffset now = None) \<longrightarrow>
      is_within_last_days clock t w (Some now) = Inr (instant now - w * day_us \<le> instant t))
   \<and> (cutoff_exists now w \<longrightarrow>
        is_within_last_days clock \<lparr>wall = wall now - w * day_us, utcoffset = utcoffset now\<rparr> w
          (Some now) = Inr True)
   \<and> (\<not> cutoff_exists now w \<longrightarrow>
        (\<exists>msg. is_within_last_days clock t w (Some now) = Inl (Exn OverflowError msg)))
   \<and> (cutoff_exists now w \<and> (utcoffset t = None) \<noteq> (utcoffset now = None) \<longrightarrow>
        (\<exists>msg. is_within_last_days clock t w (Some now) = Inl (Exn TypeError msg)))"
proof (intro conjI impI)
  let ?cutoff = "\<lparr>wall = wall now - w * day_us, utcoffset = utcoffset now\<rparr>"
  have i: "instant ?cutoff = instant now - w * day_us"
    by (simp add: instant_def split: option.splits)
  show "is_within_last_days clock t w (Some now) = Inr (instant now - w * day_us \<le> instant t)"
    if "cutoff_exists now w \<and> (utcoffset t = None) = (utcoffset now = None)"
  proof -
    from that have "is_within_last_days clock t w (Some now) = dt_ge t ?cutoff"
      by (simp add: is_within_last_days_value)
    also from that have "\<dots> = Inr (instant ?cutoff \<le> instant t)"
      by (simp add: dt_ge_def)
    finally show ?thesis
      by (simp only: i)
  qed
  show "is_within_last_days clock ?cutoff w (Some now) = Inr True" if "cutoff_exists now w"
    using that by (simp add: is_within_last_days_value dt_ge_def)
  show "\<exists>msg. is_within_last_days clock t w (Some now) = Inl (Exn OverflowError msg)"
    if "\<not> cutoff_exists now w"
    using that by (simp add: is_within_last_days_value)
  show "\<exists>msg. is_within_last_days clock t w (Some now) = Inl (Exn TypeError msg)"
    if "cutoff_exists now w \<and> (utcoffset t = None) \<noteq> (utcoffset now = None)"
    using that by (simp add: is_within_last_days_value dt_ge_def)
qed

theorem is_within_last_days_iff_witness:
  "cutoff_exists example_now 2
   \<and> is_within_last_days 0 two_days_before 2 (Some example_now) = Inr True
   \<and> is_within_last_days 0 just_too_old 2 (Some example_now) = Inr False"
proof -
  have c: "cutoff_exists example_now 2"
    by (simp add: cutoff_exists_def example_now_def day_us_def max_wall_def)
  have a: "(utcoffset two_days_before = None) = (utcoffset example_now = None)"
    and b: "(utcoffset just_too_old = None) = (utcoffset example_now = None)"
    by (simp_all add: two_days_before_def just_too_old_def example_now_def)
  from is_within_last_days_iff [of example_now 2 two_days_before 0] c a
  have "is_within_last_days 0 two_days_before 2 (Some example_now)
      = Inr (instant example_now - 2 * day_us \<le> instant two_days_before)"
    by blast
  then have t: "is_within_last_days 0 two_days_before 2 (Some example_now) = Inr True"
    by (simp add: instant_def example_now_def two_days_before_def day_us_def)
  from is_within_last_days_iff [of example_now 2 just_too_old 0] c b
  have "is_within_last_days 0 just_too_old 2 (Some example_now)
      = Inr (instant example_now - 2 * day_us \<le> instant just_too_old)"
    by blast
  then have f: "is_within_last_days 0 just_too_old 2 (Some example_now) = Inr False"
    by (simp add: instant_def example_now_def just_too_old_def day_us_def)
  from c t f show ?thesis
    by - (intro conjI, assumption+)
qed

text \<open>
  The claim C4 as the specification states it, for every window, fails for a window of
  800000 days: the timestamp is later than \<open>now\<close> minus the window, and the function
  raises \<open>OverflowError\<close> instead of returning true.
\<close>

theorem is_within_last_days_counterexample:
  "is_within_last_days 0 two_days_before 800000 (Some example_now)
     = Inl (Exn OverflowError (ustr ''date value out of range''))
   \<and> instant example_now - 800000 * day_us \<le> instant two_days_before
   \<and> is_within_last_days 0 two_days_before 800000 (Some example_now) \<noteq> Inr True"
  by code_simp

lemma filter_hits_by_date_undated:
  "filter_hits_by_date now hits w = Inr kept \<Longrightarrow>
     filter (\<lambda>h. SearchHit.published_at h = None) kept
       = filter (\<lambda>h. SearchHit.published_at h = None) hits"
proof (induction hits arbitrary: kept)
  case Nil
  then show ?case by simp
next
  case (Cons hit hits)
  show ?case
  proof (cases "SearchHit.published_at hit")
    case None
    with Cons.prems obtain rest where
      rest: "filter_hits_by_date now hits w = Inr rest" and kept: "kept = hit # rest"
      by (auto split: sum.splits)
    from Cons.IH [OF rest] None kept show ?thesis by simp
  next
    case (Some d)
    with Cons.prems obtain recent rest where
      rest: "filter_hits_by_date now hits w = Inr rest"
      and kept: "kept = (if recent then hit # rest else rest)"
      by (auto split: sum.splits)
    from Cons.IH [OF rest] Some kept show ?thesis by simp
  qed
qed

lemma filter_hits_by_date_returns:
  assumes "utcoffset now \<noteq> None" and "cutoff_exists now w"
    and "\<forall>h \<in> set hits. \<forall>d. SearchHit.published_at h = Some d \<longrightarrow> utcoffset d \<noteq> None"
  shows "\<exists>kept. filter_hits_by_date now hits w = Inr kept"
  using assms(3)
proof (induction hits)
  case Nil
  then show ?case by simp
next
  case (Cons hit hits)
  then obtain rest where rest: "filter_hits_by_date now hits w = Inr rest"
    by auto
  show ?case
  proof (cases "SearchHit.published_at hit")
    case None
    with rest show ?thesis by simp
  next
    case (Some d)
    with Cons.prems have "utcoffset d \<noteq> None" by simp
    with assms(1,2) have "\<exists>b. is_within_last_days (instant now) d w (Some now) = Inr b"
      by (simp add: is_within_last_days_value dt_ge_def)
    with Some rest show ?thesis by auto
  qed
qed

lemma filter_hits_by_date_all_undated:
  "\<forall>h \<in> set hits. SearchHit.published_at h = None \<Longrightarrow> filter_hits_by_date now hits w = Inr hits"
  by (induction hits) simp_all

lemma filter_hits_by_date_overflow:
  assumes "\<not> cutoff_exists now w" and "\<exists>h \<in> set hits. SearchHit.published_at h \<noteq> None"
  shows "\<exists>msg. filter_hits_by_date now hits w = Inl (Exn OverflowError msg)"
  using assms(2)
proof (induction hits)
  case Nil
  then show ?case by simp
next
  case (Cons hit hits)
  show ?case
  proof (cases "SearchHit.published_at hit")
    case None
    with Cons.prems have "\<exists>h \<in> set hits. SearchHit.published_at h \<noteq> None" by simp
    then obtain msg where "filter_hits_by_date now hits w = Inl (Exn OverflowError msg)"
      using Cons.IH by blast
    with None show ?thesis by simp
  next
    case (Some d)
    from assms(1) obtain msg where
      "is_within_last_days (instant now) d w (Some now) = Inl (Exn OverflowError msg)"
      by (simp add: is_within_last_days_value)
    with Some show ?thesis by simp
  qed
qed

text \<open>
  C5, as the code has it. Whenever \<open>filter_hits_by_date\<close> returns, it has kept every
  hit whose \<open>published_at\<close> is absent: the undated hits of the result are the undated
  hits of the input, in the same order. It returns when the dated hits and the clock
  reading are timezone-aware and the cutoff of the window is a datetime, and it returns
  a list without dated hit as it is, whatever the window. When the cutoff is no datetime
  and some hit is dated, the comparison raises \<open>OverflowError\<close> and no hit is returned.
\<close>

theorem filter_hits_by_date_keeps_undated:
  "(\<forall>kept. filter_hits_by_date now hits w = Inr kept \<longrightarrow>
      (\<forall>h \<in> set hits. SearchHit.published_at h = None \<longrightarrow> h \<in> set kept) \<and>
      filter (\<lambda>h. SearchHit.published_at h = None) kept
        = filter (\<lambda>h. SearchHit.published_at h = None) hits)
   \<and> (utcoffset now \<noteq> None \<and> cutoff_exists now w \<and>
        (\<forall>h \<in> set hits. \<forall>d. SearchHit.published_at h = Some d \<longrightarrow> utcoffset d \<noteq> None) \<longrightarrow>
      (\<exists>kept. filter_hits_by_date now hits w = Inr kept))
   \<and> ((\<forall>h \<in> set hits. SearchHit.published_at h = None) \<longrightarrow>
        filter_hits_by_date now hits w = Inr hits)
   \<and> (\<not> cutoff_exists now w \<and> (\<exists>h \<in> set hits. SearchHit.published_at h \<noteq> None) \<longrightarrow>
        (\<exists>msg. filter_hits_by_date now hits w = Inl (Exn OverflowError msg)))"
proof (intro conjI allI impI)
  fix kept
  assume ret: "filter_hits_by_date now hits w = Inr kept"
  from filter_hits_by_date_undated [OF ret]
  show eq: "filter (\<lambda>h. SearchHit.published_at h = None) kept
      = filter (\<lambda>h. SearchHit.published_at h = None) hits" .
  show "\<forall>h \<in> set hits. SearchHit.published_at h = None \<longrightarrow> h \<in> set kept"
  proof (intro ballI impI)
    fix h
    assume "h \<in> set hits" and "SearchHit.published_at h = None"
    then have "h \<in> set (filter (\<lambda>h. SearchHit.published_at h = None) hits)" by simp
    with eq have "h \<in> set (filter (\<lambda>h. SearchHit.published_at h = None) kept)" by simp
    then show "h \<in> set kept" by simp
  qed
next
  assume "utcoffset now \<noteq> None \<and> cutoff_exists now w \<and>
    (\<forall>h \<in> set hits. \<forall>d. SearchHit.published_at h = Some d \<longrightarrow> utcoffset d \<noteq> None)"
  then show "\<exists>kept. filter_hits_by_date now hits w = Inr kept"
    using filter_hits_by_date_returns by blast
next
  assume "\<forall>h \<in> set hits. SearchHit.published_at h = None"
  then show "filter_hits_by_date now hits w = Inr hits"
    by (rule filter_hits_by_date_all_undated)
next
  assume "\<not> cutoff_exists now w \<and> (\<exists>h \<in> set hits. SearchHit.published_at h \<noteq> None)"
  then show "\<exists>msg. filter_hits_by_date now hits w = Inl (Exn OverflowError msg)"
    using filter_hits_by_date_overflow by blast
qed

theorem filter_hits_by_date_keeps_undated_witness:
  "filter_hits_by_date example_now
     [example_hit (ustr ''a''),
      (example_hit (ustr ''b''))\<lparr>SearchHit.published_at := Some just_too_old\<rparr>,
      (example_hit (ustr ''c''))\<lparr>SearchHit.published_at := Some two_days_before\<rparr>] 2
   = Inr [example_hit (ustr ''a''),
          (example_hit (ustr ''c''))\<lparr>SearchHit.published_at := Some two_days_before\<rparr>]
   \<and> example_hit (ustr ''a'')
       \<in> set [example_hit (ustr ''a''),
               (example_hit (ustr ''c''))\<lparr>SearchHit.published_at := Some two_days_before\<rparr>]"
proof -
  have a: "filter_hits_by_date example_now
     [example_hit (ustr ''a''),
      (example_hit (ustr ''b''))\<lparr>SearchHit.published_at := Some just_too_old\<rparr>,
      (example_hit (ustr ''c''))\<lparr>SearchHit.published_at := Some two_days_before\<rparr>] 2
   = Inr [example_hit (ustr ''a''),
          (example_hit (ustr ''c''))\<lparr>SearchHit.published_at := Some two_days_before\<rparr>]"
    by code_simp
  from filter_hits_by_date_keeps_undated [of example_now
      "[example_hit (ustr ''a''),
        (example_hit (ustr ''b''))\<lparr>SearchHit.published_at := Some just_too_old\<rparr>,
        (example_hit (ustr ''c''))\<lparr>SearchHit.published_at := Some two_days_before\<rparr>]" 2] a
  have "example_hit (ustr ''a'')
       \<in> set [example_hit (ustr ''a''),
               (example_hit (ustr ''c''))\<lparr>SearchHit.published_at := Some two_days_before\<rparr>]"
    by (simp add: example_hit_def)
  with a show ?thesis by (rule conjI)
qed

text \<open>
  The claim C5 as the specification states it, for every window, fails for a window of
  800000 days and a listing with a dated hit: the filter raises, and the undated hit of
  the listing is returned no more than the others.
\<close>

theorem filter_hits_by_date_counterexample:
  "filter_hits_by_date example_now
     [example_hit (ustr ''a''),
      (example_hit (ustr ''c''))\<lparr>SearchHit.published_at := Some two_days_before\<rparr>] 800000
   = Inl (Exn OverflowError (ustr ''date value out of range''))
   \<and> SearchHit.published_at (example_hit (ustr ''a'')) = None"
  by code_simp

section \<open>Date parsing\<close>







section \<open>Text normalisation\<close>

lemma set_place: "set (place ccc x ys) = insert x (set ys)"
  by (induction ys) auto

lemma set_canonical_order: "set (canonical_order ccc xs) = set xs"
  by (induction xs) (auto simp: set_place)

lemma place_starter: "ccc x = 0 \<Longrightarrow> place ccc x ys = x # ys"
  by (cases ys) auto

lemma canonical_order_starters: "\<forall>c \<in> set xs. ccc c = 0 \<Longrightarrow> canonical_order ccc xs = xs"
  by (induction xs) (auto simp: place_starter)

lemma nfkd_chars: "d \<in> set (nfkd U s) \<Longrightarrow> \<exists>c. d \<in> set (decomposition U c)"
  by (auto simp: nfkd_def set_canonical_order)

lemma lower_chars:
  "d \<in> set (lower U s) \<Longrightarrow> \<exists>pre c post. c \<in> set s \<and> d \<in> set (lower_at U pre c post)"
  by (auto simp: lower_def) (metis nth_mem)

lemma lower_pointwise:
  assumes "\<forall>c \<in> set s. \<forall>pre post. lower_at U pre c post = [f c]"
  shows "lower U s = map f s"
proof -
  have "map (\<lambda>i. lower_at U (take i s) (s ! i) (drop (Suc i) s)) [0..<length s]
      = map (\<lambda>i. [f (s ! i)]) [0..<length s]"
    using assms by (intro map_cong) auto
  then have "lower U s = concat (map (\<lambda>i. [f (s ! i)]) [0..<length s])"
    by (simp only: lower_def)
  also have "\<dots> = map (\<lambda>i. f (s ! i)) [0..<length s]"
    by (rule concat_map_singleton)
  also have "\<dots> = map f (map (\<lambda>i. s ! i) [0..<length s])"
    by simp
  also have "\<dots> = map f s"
    by (simp only: map_nth)
  finally show ?thesis .
qed

lemma set_ws_sub: "set (ws_sub sp s) \<subseteq> insert 32 (set s)"
proof (induction sp s rule: ws_sub.induct)
  case (1 sp)
  then show ?case by simp
next
  case (2 sp c cs)
  have "set (dropWhile sp cs) \<subseteq> set cs"
    by (simp add: set_dropWhileD subsetI)
  with 2 show ?case by auto
qed

lemma set_strip: "set (strip p s) \<subseteq> set s"
  unfolding strip_def by (auto dest!: set_dropWhileD)


lemma dropWhile_head: "dropWhile p xs = y # ys \<Longrightarrow> \<not> p y"
  by (metis hd_dropWhile list.sel(1) list.distinct(1))

lemma collapsed_ws_sub: "sp 32 \<Longrightarrow> collapsed sp (ws_sub sp s)"
proof (induction sp s rule: ws_sub.induct)
  case (1 sp)
  then show ?case by simp
next
  case (2 sp c cs)
  show ?case
  proof (cases "sp c")
    case True
    have "case ws_sub sp (dropWhile sp cs) of [] \<Rightarrow> True | d # _ \<Rightarrow> \<not> sp d"
    proof (cases "dropWhile sp cs")
      case Nil
      then show ?thesis by (simp del: dropWhile_eq_Nil_conv)
    next
      case (Cons y ys)
      then have "\<not> sp y" by (rule dropWhile_head)
      with Cons show ?thesis by simp
    qed
    with True 2 show ?thesis by simp
  next
    case False
    with 2 show ?thesis by simp
  qed
qed

lemma ws_sub_collapsed: "collapsed sp s \<Longrightarrow> ws_sub sp s = s"
proof (induction sp s rule: ws_sub.induct)
  case (1 sp)
  then show ?case by simp
next
  case (2 sp c cs)
  show ?case
  proof (cases "sp c")
    case True
    with "2.prems" have c: "c = 32" and cs: "dropWhile sp cs = cs" and rest: "collapsed sp cs"
      by (auto split: list.splits)
    from "2.IH"(1) [OF True] rest cs have "ws_sub sp (dropWhile sp cs) = cs" by simp
    with True c show ?thesis by simp
  next
    case False
    with 2 show ?thesis by simp
  qed
qed

lemma collapsed_append: "collapsed sp (xs @ ys) \<Longrightarrow> collapsed sp xs \<and> collapsed sp ys"
proof (induction xs)
  case Nil
  then show ?case by simp
next
  case (Cons x xs)
  then show ?case
    by (cases xs) (auto split: list.splits)
qed

lemma strip_decompose: "\<exists>pre post. s = pre @ strip p s @ post"
proof -
  let ?t = "dropWhile p s"
  have "s = takeWhile p s @ ?t" by simp
  moreover have "?t = rev (dropWhile p (rev ?t)) @ rev (takeWhile p (rev ?t))"
    by (metis rev_append rev_rev_ident takeWhile_dropWhile_id)
  ultimately have "s = takeWhile p s @ strip p s @ rev (takeWhile p (rev ?t))"
    by (simp add: strip_def)
  then show ?thesis by blast
qed

lemma collapsed_strip: "collapsed sp s \<Longrightarrow> collapsed sp (strip p s)"
proof -
  assume c: "collapsed sp s"
  obtain pre post where "s = pre @ strip p s @ post"
    using strip_decompose by blast
  with c have "collapsed sp (pre @ strip p s @ post)" by simp
  then show ?thesis
    using collapsed_append by blast
qed

lemma strip_ends:
  "strip p s = [] \<or> (\<not> p (hd (strip p s)) \<and> \<not> p (last (strip p s)))"
proof (cases "strip p s = []")
  case True
  then show ?thesis by simp
next
  case False
  let ?t = "dropWhile p s"
  let ?r = "dropWhile p (rev ?t)"
  from False have r: "?r \<noteq> []" by (simp add: strip_def)
  then have t: "?t \<noteq> []" by (metis dropWhile.simps(1) rev.simps(1))
  have "\<not> p (hd ?r)" using r by (simp add: hd_dropWhile)
  then have last: "\<not> p (last (strip p s))"
    using r by (simp add: strip_def last_rev)
  have "\<not> p (hd ?t)" using t by (simp add: hd_dropWhile)
  moreover have "hd (strip p s) = hd ?t"
  proof -
    obtain post where "?t = strip p s @ post"
      by (metis rev_append rev_rev_ident strip_def takeWhile_dropWhile_id)
    with False show ?thesis by (metis hd_append2)
  qed
  ultimately show ?thesis using last by simp
qed

lemma strip_fixed:
  assumes "s = [] \<or> (\<not> p (hd s) \<and> \<not> p (last s))"
  shows "strip p s = s"
proof (cases "s = []")
  case True
  then show ?thesis by (simp add: strip_def)
next
  case False
  with assms have h: "\<not> p (hd s)" and l: "\<not> p (last s)" by auto
  from False h have "dropWhile p s = s" by (cases s) auto
  moreover from False l have "dropWhile p (rev s) = rev s"
    by (cases "rev s") (auto simp: last_rev [symmetric] simp del: last_rev)
  ultimately show ?thesis by (simp add: strip_def)
qed

lemma strip_idem: "strip p (strip p s) = strip p s"
  by (rule strip_fixed) (rule strip_ends)


lemma ucd_closed_decomposition:
  "ucd_closed U \<Longrightarrow> d \<in> set (decomposition U c) \<Longrightarrow> decomposition U d = [d]"
  unfolding ucd_closed_def by blast

lemma ucd_closed_lower:
  "ucd_closed U \<Longrightarrow> decomposition U c = [c] \<Longrightarrow> combining U c = 0 \<Longrightarrow>
     d \<in> set (lower_at U pre c post) \<Longrightarrow> inert U d"
  unfolding ucd_closed_def by blast

lemma ucd_closed_space: "ucd_closed U \<Longrightarrow> inert U 32 \<and> isspace U 32"
  unfolding ucd_closed_def by blast

lemma normalize_text_inert:
  assumes "ucd_closed U" and "c \<in> set (normalize_text U s)"
  shows "inert U c"
proof -
  let ?u1 = "filter (\<lambda>ch. combining U ch = 0) (nfkd U s)"
  let ?u2 = "lower U ?u1"
  have "normalize_text U s = strip (isspace U) (ws_sub (isspace U) ?u2)"
    unfolding normalize_text_def Let_def ..
  with assms(2) have "c \<in> set (strip (isspace U) (ws_sub (isspace U) ?u2))"
    by (simp only:)
  then have "c \<in> set (ws_sub (isspace U) ?u2)"
    by (rule subsetD [OF set_strip])
  then have "c \<in> insert 32 (set ?u2)"
    by (rule subsetD [OF set_ws_sub])
  then have "c = 32 \<or> c \<in> set ?u2"
    by (simp only: insert_iff)
  then show ?thesis
  proof
    assume "c = 32"
    with assms(1) show ?thesis by (simp add: ucd_closed_space)
  next
    assume "c \<in> set ?u2"
    then obtain pre x post where x: "x \<in> set ?u1" and c: "c \<in> set (lower_at U pre x post)"
      using lower_chars by blast
    from x have ccc: "combining U x = 0" and "x \<in> set (nfkd U s)"
      by simp_all
    then obtain y where "x \<in> set (decomposition U y)"
      using nfkd_chars by blast
    with assms(1) have "decomposition U x = [x]"
      by (rule ucd_closed_decomposition)
    with assms(1) show ?thesis
      using ccc c by (rule ucd_closed_lower)
  qed
qed

lemma normalize_text_fixed:
  assumes inert: "\<forall>c \<in> set r. inert U c"
    and ws: "ws_sub (isspace U) r = r" and st: "strip (isspace U) r = r"
  shows "normalize_text U r = r"
proof -
  have "map (decomposition U) r = map (\<lambda>c. [c]) r"
    using inert by (simp add: inert_def)
  then have "concat (map (decomposition U) r) = concat (map (\<lambda>c. [c]) r)"
    by (rule arg_cong)
  then have dec: "concat (map (decomposition U) r) = r"
    by simp
  have ccc: "\<forall>c \<in> set r. combining U c = 0"
    using inert by (simp add: inert_def)
  then have n: "nfkd U r = r"
    by (simp add: nfkd_def dec canonical_order_starters)
  have f: "filter (\<lambda>ch. combining U ch = 0) r = r"
    using ccc by simp
  have "lower U r = map (\<lambda>c. c) r"
    using inert by (intro lower_pointwise) (simp add: inert_def)
  then have l: "lower U r = r" by simp
  show ?thesis
    by (simp add: normalize_text_def n f l ws st)
qed

lemma normalize_text_idem:
  assumes "ucd_closed U"
  shows "normalize_text U (normalize_text U s) = normalize_text U s"
proof (rule normalize_text_fixed)
  show "\<forall>c \<in> set (normalize_text U s). inert U c"
    using assms normalize_text_inert by blast
next
  let ?w = "ws_sub (isspace U) (lower U (filter (\<lambda>ch. combining U ch = 0) (nfkd U s)))"
  have r: "normalize_text U s = strip (isspace U) ?w"
    by (simp add: normalize_text_def)
  from assms have "isspace U 32" by (simp add: ucd_closed_space)
  then have "collapsed (isspace U) ?w" by (rule collapsed_ws_sub)
  then have "collapsed (isspace U) (strip (isspace U) ?w)" by (rule collapsed_strip)
  then show "ws_sub (isspace U) (normalize_text U s) = normalize_text U s"
    unfolding r by (rule ws_sub_collapsed)
  show "strip (isspace U) (normalize_text U s) = normalize_text U s"
    unfolding r by (rule strip_idem)
qed


lemma filter_place:
  "filter (\<lambda>c. ccc c = 0) (place ccc x ys) = filter (\<lambda>c. ccc c = 0) (x # ys)"
  by (induction ys) auto

lemma filter_canonical_order:
  "filter (\<lambda>c. ccc c = 0) (canonical_order ccc xs) = filter (\<lambda>c. ccc c = 0) xs"
  by (induction xs) (auto simp: filter_place)

lemma ws_sub_no_space: "\<forall>c \<in> set s. \<not> sp c \<Longrightarrow> ws_sub sp s = s"
  by (induction s) auto

lemma strip_no_space: "\<forall>c \<in> set s. \<not> p c \<Longrightarrow> strip p s = s"
  by (rule strip_fixed) (cases s, auto)

lemma normalize_text_letters:
  assumes U: "ucd_basic_latin U"
    and dec: "filter (\<lambda>ch. combining U ch = 0) (concat (map (decomposition U) s)) = t"
    and t: "\<forall>c \<in> set t. (65 \<le> c \<and> c \<le> 90) \<or> (97 \<le> c \<and> c \<le> 122)"
  shows "normalize_text U s = map ascii_lower t"
proof -
  have f: "filter (\<lambda>ch. combining U ch = 0) (nfkd U s) = t"
    using dec by (simp add: nfkd_def filter_canonical_order)
  have "\<forall>c \<in> set t. \<forall>pre post. lower_at U pre c post = [ascii_lower c]"
    using U t unfolding ucd_basic_latin_def ascii_lower_def by auto
  then have l: "lower U t = map ascii_lower t"
    by (rule lower_pointwise)
  have "\<forall>c \<in> set (map ascii_lower t). 65 \<le> c \<and> c \<le> 122"
    using t by (auto simp: ascii_lower_def)
  then have nosp: "\<forall>c \<in> set (map ascii_lower t). \<not> isspace U c"
    using U unfolding ucd_basic_latin_def by blast
  show ?thesis
    by (simp add: normalize_text_def f l ws_sub_no_space [OF nosp] strip_no_space [OF nosp])
qed

lemma normalize_text_financiere:
  assumes U: "ucd_basic_latin U"
  shows "normalize_text U [70, 73, 78, 65, 78, 67, 73, 200, 82, 69] = ustr ''financiere''"
    and "normalize_text U (ustr ''financiere'') = ustr ''financiere''"
proof -
  have d: "\<And>c. 65 \<le> c \<and> c \<le> 122 \<Longrightarrow> decomposition U c = [c] \<and> combining U c = 0"
    using U unfolding ucd_basic_latin_def by blast
  have e: "decomposition U 200 = [69, 768]" "combining U 768 \<noteq> 0"
    using U unfolding ucd_basic_latin_def by blast+
  have "normalize_text U [70, 73, 78, 65, 78, 67, 73, 200, 82, 69]
      = map ascii_lower [70, 73, 78, 65, 78, 67, 73, 69, 82, 69]"
    by (rule normalize_text_letters [OF U]) (simp_all add: d e)
  then show "normalize_text U [70, 73, 78, 65, 78, 67, 73, 200, 82, 69] = ustr ''financiere''"
    by (simp add: ascii_lower_def ustr_def)
  have "normalize_text U (ustr ''financiere'')
      = map ascii_lower (ustr ''financiere'')"
    by (rule normalize_text_letters [OF U]) (simp_all add: d ustr_def)
  then show "normalize_text U (ustr ''financiere'') = ustr ''financiere''"
    by (simp add: ascii_lower_def ustr_def)
qed

lemma ucd_fragment_closed: "ucd_closed ucd_fragment"
  unfolding ucd_closed_def inert_def ucd_fragment_def by (auto split: if_splits)

lemma ucd_fragment_basic_latin: "ucd_basic_latin ucd_fragment"
  unfolding ucd_basic_latin_def ucd_fragment_def by auto

text \<open>
  C7. \<open>normalize_text\<close> is idempotent on every text, and it is case- and
  accent-insensitive: FINANCI\<open>U+00C8\<close>RE and financiere have the same normal form. The
  function is total: it is a composition of terminating functions. The two parts use the
  Unicode Character Database through \<open>ucd_closed\<close> and \<open>ucd_basic_latin\<close>.
\<close>

theorem normalize_text_idempotent_insensitive:
  "(ucd_closed U \<longrightarrow> normalize_text U (normalize_text U s) = normalize_text U s)
   \<and> (ucd_basic_latin U \<longrightarrow>
        normalize_text U [70, 73, 78, 65, 78, 67, 73, 200, 82, 69]
          = normalize_text U (ustr ''financiere''))"
  by (simp add: normalize_text_idem normalize_text_financiere)

theorem normalize_text_idempotent_insensitive_witness:
  "ucd_closed ucd_fragment \<and> ucd_basic_latin ucd_fragment
   \<and> normalize_text ucd_fragment (normalize_text ucd_fragment (ustr '' BNP   PARIBAS ''))
       = normalize_text ucd_fragment (ustr '' BNP   PARIBAS '')
   \<and> normalize_text ucd_fragment [70, 73, 78, 65, 78, 67, 73, 200, 82, 69]
       = normalize_text ucd_fragment (ustr ''financiere'')"
  using normalize_text_idempotent_insensitive [of ucd_fragment "ustr '' BNP   PARIBAS ''"]
    ucd_fragment_closed ucd_fragment_basic_latin
  by simp

section \<open>File names\<close>

lemma filename_char_hyphen: "filename_char 45"
  by (simp add: filename_char_def)

lemma safe_filename_cleaned_chars:
  assumes "c \<in> set (strip (\<lambda>c. c = 45)
      (map (\<lambda>c. if c = 32 then 45 else c) (filter filename_char t)))"
  shows "filename_char c \<and> c \<noteq> 32"
proof -
  from assms have "c \<in> set (map (\<lambda>c. if c = 32 then 45 else c) (filter filename_char t))"
    by (rule subsetD [OF set_strip])
  then obtain d where d: "filename_char d" and c: "c = (if d = 32 then 45 else d)"
    by auto
  show ?thesis
  proof (cases "d = 32")
    case True
    with c show ?thesis by (simp add: filename_char_hyphen)
  next
    case False
    with c d show ?thesis by simp
  qed
qed

lemma item_chars: "c \<in> set (ustr ''item'') \<Longrightarrow> filename_char c \<and> c \<noteq> 32"
proof -
  assume "c \<in> set (ustr ''item'')"
  then have "c = 105 \<or> c = 116 \<or> c = 101 \<or> c = 109"
    by (simp add: ustr_def)
  then show ?thesis
    by (elim disjE) (simp_all add: filename_char_def)
qed

text \<open>
  C10. With the default maximum length 120, \<open>safe_filename\<close> returns a non-empty text
  of at most 120 code points, each a lowercase ASCII letter, a digit, a hyphen, an
  underscore or a dot (never a space); when nothing usable is left of the input after
  normalisation and cleaning, the result is the fallback name \<open>item\<close>.
\<close>

theorem safe_filename_default:
  "safe_filename U txt 120 \<noteq> []
   \<and> length (safe_filename U txt 120) \<le> 120
   \<and> (\<forall>c \<in> set (safe_filename U txt 120).
        (97 \<le> c \<and> c \<le> 122) \<or> (48 \<le> c \<and> c \<le> 57) \<or> c = 45 \<or> c = 95 \<or> c = 46)
   \<and> (strip (\<lambda>c. c = 45) (map (\<lambda>c. if c = 32 then 45 else c)
          (filter filename_char (normalize_text U txt))) = []
        \<longrightarrow> safe_filename U txt 120 = ustr ''item'')"
proof -
  define cleaned where "cleaned = strip (\<lambda>c. c = 45) (map (\<lambda>c. if c = 32 then 45 else c)
      (filter filename_char (normalize_text U txt)))"
  define n where "n = (if cleaned = [] then ustr ''item'' else cleaned)"
  have "safe_filename U txt 120 = slice_to n 120"
    unfolding safe_filename_def Let_def n_def cleaned_def ..
  then have r: "safe_filename U txt 120 = take 120 n"
    by (simp add: slice_to_def)
  have item: "ustr ''item'' \<noteq> []"
    by (simp add: ustr_def)
  have nonempty: "n \<noteq> []"
    unfolding n_def using item by (cases "cleaned = []") simp_all
  have chars: "filename_char c \<and> c \<noteq> 32" if "c \<in> set n" for c
  proof (cases "cleaned = []")
    case True
    with that have "c \<in> set (ustr ''item'')" by (simp add: n_def)
    then show ?thesis by (rule item_chars)
  next
    case False
    with that have "c \<in> set cleaned" by (simp add: n_def)
    then show ?thesis unfolding cleaned_def by (rule safe_filename_cleaned_chars)
  qed
  have c1: "take 120 n \<noteq> []"
    using nonempty by (simp add: take_eq_Nil)
  have c2: "length (take 120 n) \<le> 120"
    by simp
  have c3: "\<forall>c \<in> set (take 120 n).
      (97 \<le> c \<and> c \<le> 122) \<or> (48 \<le> c \<and> c \<le> 57) \<or> c = 45 \<or> c = 95 \<or> c = 46"
  proof
    fix c
    assume "c \<in> set (take 120 n)"
    then have "c \<in> set n" by (rule in_set_takeD)
    then have "filename_char c \<and> c \<noteq> 32" by (rule chars)
    then show "(97 \<le> c \<and> c \<le> 122) \<or> (48 \<le> c \<and> c \<le> 57) \<or> c = 45 \<or> c = 95 \<or> c = 46"
      unfolding filename_char_def by blast
  qed
  have c4: "cleaned = [] \<longrightarrow> take 120 n = ustr ''item''"
  proof
    assume "cleaned = []"
    then have "n = ustr ''item''" by (simp add: n_def)
    moreover have "length (ustr ''item'') \<le> 120" by (simp add: ustr_def)
    ultimately show "take 120 n = ustr ''item''" by (simp only: take_all)
  qed
  from c1 c2 c3 c4 show ?thesis
    unfolding r cleaned_def by (intro conjI)
qed

theorem safe_filename_default_witness:
  "safe_filename ucd_fragment (ustr ''Hello, World! '') 120 = ustr ''hello-world''
   \<and> safe_filename ucd_fragment (ustr ''!!!'') 120 = ustr ''item''
   \<and> length (safe_filename ucd_fragment (ustr ''Hello, World! '') 120) \<le> 120"
proof -
  have a: "safe_filename ucd_fragment (ustr ''Hello, World! '') 120 = ustr ''hello-world''"
    by code_simp
  have b: "safe_filename ucd_fragment (ustr ''!!!'') 120 = ustr ''item''"
    by code_simp
  from safe_filename_default [of ucd_fragment "ustr ''Hello, World! ''"] a b
  show ?thesis by simp
qed

section \<open>The search loop\<close>

text \<open>One turn of the loop, case by case, in the order of the tests of the source.\<close>

lemma search_pages_skip:
  "u \<in> set ps \<Longrightarrow> search_pages E (u # urls) ps su hits = search_pages E urls ps su hits"
  by simp

lemma search_pages_fetch_raises:
  "u \<notin> set ps \<Longrightarrow> fetch E u = Inl e \<Longrightarrow> search_pages E (u # urls) ps su hits = (Inl e, ps @ [u])"
  by simp

lemma search_pages_parse_raises:
  "u \<notin> set ps \<Longrightarrow> fetch E u = Inr html \<Longrightarrow> hits_of E html u = Inl e \<Longrightarrow>
     search_pages E (u # urls) ps su hits = (Inl e, ps @ [u])"
  by simp

lemma search_pages_no_new_hits:
  "u \<notin> set ps \<Longrightarrow> fetch E u = Inr html \<Longrightarrow> hits_of E html u = Inr page_hits \<Longrightarrow>
   filter (\<lambda>hit. SearchHit.url hit \<notin> su) page_hits = [] \<Longrightarrow>
     search_pages E (u # urls) ps su hits = (Inr hits, ps @ [u])"
  by (simp del: filter_empty_conv)

lemma search_pages_max_results:
  "u \<notin> set ps \<Longrightarrow> fetch E u = Inr html \<Longrightarrow> hits_of E html u = Inr page_hits \<Longrightarrow>
   filter (\<lambda>hit. SearchHit.url hit \<notin> su) page_hits = new_hits \<Longrightarrow> new_hits \<noteq> [] \<Longrightarrow>
   result_limit E \<le> int (length (hits @ new_hits)) \<Longrightarrow>
     search_pages E (u # urls) ps su hits = (Inr (hits @ new_hits), ps @ [u])"
  by (auto simp del: filter_empty_conv)

lemma search_pages_max_pages:
  "u \<notin> set ps \<Longrightarrow> fetch E u = Inr html \<Longrightarrow> hits_of E html u = Inr page_hits \<Longrightarrow>
   filter (\<lambda>hit. SearchHit.url hit \<notin> su) page_hits = new_hits \<Longrightarrow> new_hits \<noteq> [] \<Longrightarrow>
   \<not> result_limit E \<le> int (length (hits @ new_hits)) \<Longrightarrow> \<not> paged E \<Longrightarrow>
   page_limit E \<le> int (length (ps @ [u])) \<Longrightarrow>
     search_pages E (u # urls) ps su hits = (Inr (hits @ new_hits), ps @ [u])"
  by (auto simp del: filter_empty_conv)

lemma search_pages_no_next:
  "u \<notin> set ps \<Longrightarrow> fetch E u = Inr html \<Longrightarrow> hits_of E html u = Inr page_hits \<Longrightarrow>
   filter (\<lambda>hit. SearchHit.url hit \<notin> su) page_hits = new_hits \<Longrightarrow> new_hits \<noteq> [] \<Longrightarrow>
   \<not> result_limit E \<le> int (length (hits @ new_hits)) \<Longrightarrow> \<not> paged E \<Longrightarrow>
   \<not> page_limit E \<le> int (length (ps @ [u])) \<Longrightarrow>
   next_of E html u = None \<or> next_of E html u = Some [] \<or>
     (\<exists>n. next_of E html u = Some n \<and> n \<in> set (ps @ [u])) \<Longrightarrow>
     search_pages E (u # urls) ps su hits = (Inr (hits @ new_hits), ps @ [u])"
  by (auto simp del: filter_empty_conv)

lemma search_pages_next:
  "u \<notin> set ps \<Longrightarrow> fetch E u = Inr html \<Longrightarrow> hits_of E html u = Inr page_hits \<Longrightarrow>
   filter (\<lambda>hit. SearchHit.url hit \<notin> su) page_hits = new_hits \<Longrightarrow> new_hits \<noteq> [] \<Longrightarrow>
   \<not> result_limit E \<le> int (length (hits @ new_hits)) \<Longrightarrow> \<not> paged E \<Longrightarrow>
   \<not> page_limit E \<le> int (length (ps @ [u])) \<Longrightarrow>
   next_of E html u = Some n \<Longrightarrow> n \<noteq> [] \<Longrightarrow> n \<notin> set (ps @ [u]) \<Longrightarrow>
     search_pages E (u # urls) ps su hits
       = search_pages E (urls @ [n]) (ps @ [u]) (su \<union> set (map SearchHit.url new_hits)) (hits @ new_hits)"
  by (auto simp del: filter_empty_conv)

lemma search_pages_paged:
  "u \<notin> set ps \<Longrightarrow> fetch E u = Inr html \<Longrightarrow> hits_of E html u = Inr page_hits \<Longrightarrow>
   filter (\<lambda>hit. SearchHit.url hit \<notin> su) page_hits = new_hits \<Longrightarrow> new_hits \<noteq> [] \<Longrightarrow>
   \<not> result_limit E \<le> int (length (hits @ new_hits)) \<Longrightarrow> paged E \<Longrightarrow>
     search_pages E (u # urls) ps su hits
       = search_pages E urls (ps @ [u]) (su \<union> set (map SearchHit.url new_hits)) (hits @ new_hits)"
  by (auto simp del: filter_empty_conv)

lemma search_pages_visits:
  "int (length (snd (search_pages E urls ps su hits)))
     \<le> (if paged E then int (length ps) + int (length urls)
         else max (int (length ps) + int (length urls)) (page_limit E + int (length urls) - 1))"
proof (induction E urls ps su hits rule: search_pages.induct)
  case (1 E pages_seen seen_urls hits)
  then show ?case by simp
next
  case (2 E u urls ps su hits)
  let ?stop = "\<lambda>r. search_pages E (u # urls) ps su hits = (r, ps @ [u])"
  have stop: ?case if "?stop r" for r
    unfolding that by (simp del: search_pages.simps add: le_max_iff_disj)
  show ?case
  proof (cases "u \<in> set ps")
    case True
    then have eq: "search_pages E (u # urls) ps su hits = search_pages E urls ps su hits"
      by (rule search_pages_skip)
    from "2.IH"(1) [OF True] show ?thesis
      unfolding eq by (simp del: search_pages.simps add: max_def split: if_splits)
  next
    case new: False
    show ?thesis
    proof (cases "fetch E u")
      case (Inl e)
      with new have "?stop (Inl e)" by (rule search_pages_fetch_raises)
      then show ?thesis by (rule stop)
    next
      case html: (Inr html)
      show ?thesis
      proof (cases "hits_of E html u")
        case (Inl e)
        with new html have "?stop (Inl e)" by (rule search_pages_parse_raises)
        then show ?thesis by (rule stop)
      next
        case ph: (Inr page_hits)
        define new_hits where "new_hits = filter (\<lambda>hit. SearchHit.url hit \<notin> su) page_hits"
        then have nh: "filter (\<lambda>hit. SearchHit.url hit \<notin> su) page_hits = new_hits" by simp
        show ?thesis
        proof (cases "new_hits = []")
          case True
          with nh have "filter (\<lambda>hit. SearchHit.url hit \<notin> su) page_hits = []" by simp
          with new html ph have "?stop (Inr hits)" by (rule search_pages_no_new_hits)
          then show ?thesis by (rule stop)
        next
          case some: False
          show ?thesis
          proof (cases "result_limit E \<le> int (length (hits @ new_hits))")
            case True
            with new html ph nh some have "?stop (Inr (hits @ new_hits))"
              by (rule search_pages_max_results)
            then show ?thesis by (rule stop)
          next
            case more: False
            show ?thesis
            proof (cases "paged E")
              case True
              have eq: "search_pages E (u # urls) ps su hits
                  = search_pages E urls (ps @ [u]) (su \<union> set (map SearchHit.url new_hits))
                      (hits @ new_hits)"
                using new html ph nh some more True by (rule search_pages_paged)
              have "int (length (snd (search_pages E urls (ps @ [u])
                        (su \<union> set (map SearchHit.url new_hits)) (hits @ new_hits))))
                    \<le> int (length (ps @ [u])) + int (length urls)"
                using "2.IH"(3) [OF new html ph nh [symmetric] some more] True
                by (simp del: search_pages.simps)
              with True show ?thesis
                unfolding eq by (simp del: search_pages.simps)
            next
              case unpaged: False
              show ?thesis
              proof (cases "page_limit E \<le> int (length (ps @ [u]))")
                case True
                with new html ph nh some more unpaged have "?stop (Inr (hits @ new_hits))"
                  by (rule search_pages_max_pages)
                then show ?thesis by (rule stop)
              next
                case room: False
                show ?thesis
                proof (cases "next_of E html u = None \<or> next_of E html u = Some [] \<or>
                    (\<exists>n. next_of E html u = Some n \<and> n \<in> set (ps @ [u]))")
                  case True
                  with new html ph nh some more unpaged room have "?stop (Inr (hits @ new_hits))"
                    by (rule search_pages_no_next)
                  then show ?thesis by (rule stop)
                next
                  case False
                  then obtain n where n: "next_of E html u = Some n"
                    and n1: "n \<noteq> []" and n2: "n \<notin> set (ps @ [u])"
                    by (cases "next_of E html u") auto
                  have eq: "search_pages E (u # urls) ps su hits
                      = search_pages E (urls @ [n]) (ps @ [u])
                          (su \<union> set (map SearchHit.url new_hits)) (hits @ new_hits)"
                    using new html ph nh some more unpaged room n n1 n2 by (rule search_pages_next)
                  have "\<not> (n = [] \<or> n \<in> set (ps @ [u]))" using n1 n2 by simp
                  from "2.IH"(2) [OF new html ph nh [symmetric] some more _ room n this] unpaged
                  have "int (length (snd (search_pages E (urls @ [n]) (ps @ [u])
                          (su \<union> set (map SearchHit.url new_hits)) (hits @ new_hits))))
                        \<le> max (int (length (ps @ [u])) + int (length (urls @ [n])))
                             (page_limit E + int (length (urls @ [n])) - 1)"
                    by (simp del: search_pages.simps)
                  with unpaged room show ?thesis
                    unfolding eq by (simp del: search_pages.simps add: max_def split: if_splits)
                qed
              qed
            qed
          qed
        qed
      qed
    qed
  qed
qed

lemma build_search_urls_length:
  "length (build_search_urls W cfg d keyword)
     = (if has_page_placeholder d then nat (max_pages cfg) else 1)"
  by (simp add: build_search_urls_def)

lemma search_pages_from_start:
  assumes "length urls = (if paged E then nat (page_limit E) else 1)"
  shows "int (length (snd (search_pages E urls [] {} []))) \<le> max 1 (page_limit E)"
proof -
  have "int (length (snd (search_pages E urls [] {} [])))
      \<le> (if paged E then int (length ([] :: ustring list)) + int (length urls)
          else max (int (length ([] :: ustring list)) + int (length urls))
                 (page_limit E + int (length urls) - 1))"
    by (rule search_pages_visits)
  with assms show ?thesis
    by (simp del: search_pages.simps split: if_splits)
qed

lemma search_visits:
  "int (length (snd (search W cfg d keyword ld))) \<le> max 1 (max_pages cfg)"
  unfolding search_def
  using search_pages_from_start
    [of "build_search_urls W cfg d keyword"
        "\<lparr>fetch = (\<lambda>u. fst (fetch_search_page W u)),
          hits_of = (\<lambda>html u. filter_hits_by_date (local_now W)
            (parse_search_results W d html u) ld),
          next_of = detect_next_page W, paged = has_page_placeholder d,
          page_limit = max_pages cfg, result_limit = max_results cfg\<rparr>"]
  by (simp del: search_pages.simps add: build_search_urls_length)

lemma search_with_selenium_visits:
  "int (length (snd (search_with_selenium W cfg d keyword ld))) \<le> max 1 (max_pages cfg)"
  unfolding search_with_selenium_def
  using search_pages_from_start
    [of "build_search_urls W cfg d keyword"
        "\<lparr>fetch = browser_page W,
          hits_of = (\<lambda>html u. filter_hits_by_date (local_now W)
            (parse_search_results W d html u) ld),
          next_of = detect_next_page W, paged = has_page_placeholder d,
          page_limit = max_pages cfg, result_limit = max_results cfg\<rparr>"]
  by (simp del: search_pages.simps add: build_search_urls_length)

text \<open>
  C3. Whatever the pages answer, the search of one keyword ends, in
  \<open>BaseMediaScraper.search\<close> and in \<open>_search_with_selenium\<close> alike: the loop is a total
  function, the pages it has visited (one fetch each) are returned with its result, and
  there are at most \<open>max(1, max_pages)\<close> of them, hence at most \<open>max_pages + 1\<close> for a
  page bound \<open>max_pages\<close> that is not negative. After a page has been fetched and parsed
  the loop stops, in this order: when the page brought no new hit; else when the hits
  accumulated have reached \<open>max_results\<close>; else, for a template without a page
  placeholder, when the pages visited have reached \<open>max_pages\<close>, or when
  \<open>detect_next_page\<close> finds nothing or a page already visited.
\<close>

theorem search_terminates_within_max_pages:
  "int (length (snd (search W cfg d keyword ld))) \<le> max 1 (max_pages cfg)
    \<and> int (length (snd (search_with_selenium W cfg d keyword ld))) \<le> max 1 (max_pages cfg)
    \<and> (0 \<le> max_pages cfg \<longrightarrow>
         int (length (snd (search W cfg d keyword ld))) \<le> max_pages cfg + 1 \<and>
         int (length (snd (search_with_selenium W cfg d keyword ld))) \<le> max_pages cfg + 1)
    \<and> (u \<notin> set ps \<and> fetch E u = Inr html \<and> hits_of E html u = Inr page_hits \<longrightarrow>
         (let new_hits = filter (\<lambda>hit. SearchHit.url hit \<notin> su) page_hits;
              stops_with = (\<lambda>r. search_pages E (u # urls) ps su hits = (Inr r, ps @ [u]))
          in (new_hits = [] \<longrightarrow> stops_with hits)
           \<and> (new_hits \<noteq> [] \<and> result_limit E \<le> int (length (hits @ new_hits)) \<longrightarrow>
                stops_with (hits @ new_hits))
           \<and> (new_hits \<noteq> [] \<and> \<not> result_limit E \<le> int (length (hits @ new_hits)) \<and>
               \<not> paged E \<and> page_limit E \<le> int (length (ps @ [u])) \<longrightarrow>
                stops_with (hits @ new_hits))
           \<and> (new_hits \<noteq> [] \<and> \<not> result_limit E \<le> int (length (hits @ new_hits)) \<and>
               \<not> paged E \<and> \<not> page_limit E \<le> int (length (ps @ [u])) \<and>
               (next_of E html u = None \<or> next_of E html u = Some [] \<or>
                (\<exists>n. next_of E html u = Some n \<and> n \<in> set (ps @ [u]))) \<longrightarrow>
                stops_with (hits @ new_hits))))"
proof (intro conjI)
  show a: "int (length (snd (search W cfg d keyword ld))) \<le> max 1 (max_pages cfg)"
    by (rule search_visits)
  show b: "int (length (snd (search_with_selenium W cfg d keyword ld))) \<le> max 1 (max_pages cfg)"
    by (rule search_with_selenium_visits)
  show "0 \<le> max_pages cfg \<longrightarrow>
      int (length (snd (search W cfg d keyword ld))) \<le> max_pages cfg + 1 \<and>
      int (length (snd (search_with_selenium W cfg d keyword ld))) \<le> max_pages cfg + 1"
    using a b by linarith
  show "u \<notin> set ps \<and> fetch E u = Inr html \<and> hits_of E html u = Inr page_hits \<longrightarrow>
         (let new_hits = filter (\<lambda>hit. SearchHit.url hit \<notin> su) page_hits;
              stops_with = (\<lambda>r. search_pages E (u # urls) ps su hits = (Inr r, ps @ [u]))
          in (new_hits = [] \<longrightarrow> stops_with hits)
           \<and> (new_hits \<noteq> [] \<and> result_limit E \<le> int (length (hits @ new_hits)) \<longrightarrow>
                stops_with (hits @ new_hits))
           \<and> (new_hits \<noteq> [] \<and> \<not> result_limit E \<le> int (length (hits @ new_hits)) \<and>
               \<not> paged E \<and> page_limit E \<le> int (length (ps @ [u])) \<longrightarrow>
                stops_with (hits @ new_hits))
           \<and> (new_hits \<noteq> [] \<and> \<not> result_limit E \<le> int (length (hits @ new_hits)) \<and>
               \<not> paged E \<and> \<not> page_limit E \<le> int (length (ps @ [u])) \<and>
               (next_of E html u = None \<or> next_of E html u = Some [] \<or>
                (\<exists>n. next_of E html u = Some n \<and> n \<in> set (ps @ [u]))) \<longrightarrow>
                stops_with (hits @ new_hits)))"
    unfolding Let_def
  proof (intro impI conjI; elim conjE)
    assume a: "u \<notin> set ps" "fetch E u = Inr html" "hits_of E html u = Inr page_hits"
    { assume "filter (\<lambda>hit. SearchHit.url hit \<notin> su) page_hits = []"
      with a show "search_pages E (u # urls) ps su hits = (Inr hits, ps @ [u])"
        by (rule search_pages_no_new_hits) }
    { assume "filter (\<lambda>hit. SearchHit.url hit \<notin> su) page_hits \<noteq> []"
        "result_limit E \<le> int (length (hits @ filter (\<lambda>hit. SearchHit.url hit \<notin> su) page_hits))"
      with a(1,2,3) refl
      show "search_pages E (u # urls) ps su hits
          = (Inr (hits @ filter (\<lambda>hit. SearchHit.url hit \<notin> su) page_hits), ps @ [u])"
        by (rule search_pages_max_results) }
    { assume "filter (\<lambda>hit. SearchHit.url hit \<notin> su) page_hits \<noteq> []"
        "\<not> result_limit E \<le> int (length (hits @ filter (\<lambda>hit. SearchHit.url hit \<notin> su) page_hits))"
        "\<not> paged E" "page_limit E \<le> int (length (ps @ [u]))"
      with a(1,2,3) refl
      show "search_pages E (u # urls) ps su hits
          = (Inr (hits @ filter (\<lambda>hit. SearchHit.url hit \<notin> su) page_hits), ps @ [u])"
        by (rule search_pages_max_pages) }
    { assume "filter (\<lambda>hit. SearchHit.url hit \<notin> su) page_hits \<noteq> []"
        "\<not> result_limit E \<le> int (length (hits @ filter (\<lambda>hit. SearchHit.url hit \<notin> su) page_hits))"
        "\<not> paged E" "\<not> page_limit E \<le> int (length (ps @ [u]))"
        "next_of E html u = None \<or> next_of E html u = Some [] \<or>
          (\<exists>n. next_of E html u = Some n \<and> n \<in> set (ps @ [u]))"
      with a(1,2,3) refl
      show "search_pages E (u # urls) ps su hits
          = (Inr (hits @ filter (\<lambda>hit. SearchHit.url hit \<notin> su) page_hits), ps @ [u])"
        by (rule search_pages_no_next) }
  qed
qed

theorem search_terminates_within_max_pages_witness:
  "0 \<le> max_pages example_config
   \<and> search example_site example_config example_media (ustr ''bgl'') 2
       = (Inr [example_hit (ustr ''story''), example_hit (ustr ''s=bgl/a''),
               example_hit (ustr ''s=bgl+/a'')],
          [ustr ''s=bgl'', ustr ''s=bgl+''])
   \<and> int (length (snd (search example_site example_config example_media (ustr ''bgl'') 2)))
       \<le> max_pages example_config + 1"
proof -
  have a: "0 \<le> max_pages example_config"
    by (simp add: example_config_def)
  have b: "search example_site example_config example_media (ustr ''bgl'') 2
       = (Inr [example_hit (ustr ''story''), example_hit (ustr ''s=bgl/a''),
               example_hit (ustr ''s=bgl+/a'')],
          [ustr ''s=bgl'', ustr ''s=bgl+''])"
    by code_simp
  from search_terminates_within_max_pages
    [of example_site example_config example_media "ustr ''bgl''" 2] a
  have "int (length (snd (search example_site example_config example_media (ustr ''bgl'') 2)))
       \<le> max_pages example_config + 1"
    by blast
  from a b this show ?thesis
    by - (intro conjI, assumption+)
qed

section \<open>Fetch failures\<close>

lemma upt_1_4: "[1..<4] = [1, 2, 3]"
  by (simp add: upt_rec)

lemma fetch_attempts_requests:
  "length (filter is_request (snd (fetch_attempts get u attempts))) \<le> length attempts"
  by (induction attempts) (auto split: sum.splits prod.splits)

lemma fetch_search_page_all_fail:
  assumes "\<forall>n \<in> {1, 2, 3}. \<exists>e. http_get W u n = Inl e \<and> exn_kind e = RequestException"
  shows "fetch_search_page W u
     = (Inl (Exn RuntimeError (ustr ''Failed to fetch search page: '' @ u)),
        [Request 1, Sleep 2, Request 2, Sleep 4, Request 3, Sleep 8])"
proof -
  from assms obtain e1 e2 e3 where
    "http_get W u 1 = Inl e1" "exn_kind e1 = RequestException"
    "http_get W u 2 = Inl e2" "exn_kind e2 = RequestException"
    "http_get W u 3 = Inl e3" "exn_kind e3 = RequestException"
    by auto
  then show ?thesis
    unfolding fetch_search_page_def upt_1_4 by simp
qed

lemma search_pages_fetch_failure:
  "u \<in> set (snd (search_pages E urls ps su hits)) \<Longrightarrow> u \<notin> set ps \<Longrightarrow> fetch E u = Inl e \<Longrightarrow>
     fst (search_pages E urls ps su hits) = Inl e"
proof (induction E urls ps su hits rule: search_pages.induct)
  case (1 E pages_seen seen_urls hits)
  then show ?case by simp
next
  case (2 E u0 urls ps su hits)
  let ?stop = "\<lambda>r. search_pages E (u0 # urls) ps su hits = (r, ps @ [u0])"
  have stop: ?case if "?stop (Inr r)" "fetch E u0 = Inr html" for r html
  proof -
    from "2.prems"(1,2) that(1) have "u = u0" by simp
    with "2.prems"(3) that(2) show ?thesis by simp
  qed
  have continue: ?case
    if eq: "search_pages E (u0 # urls) ps su hits = search_pages E urls' (ps @ [u0]) su' hits'"
      and html: "fetch E u0 = Inr html"
      and ih: "u \<in> set (snd (search_pages E urls' (ps @ [u0]) su' hits')) \<Longrightarrow>
        u \<notin> set (ps @ [u0]) \<Longrightarrow> fetch E u = Inl e \<Longrightarrow>
        fst (search_pages E urls' (ps @ [u0]) su' hits') = Inl e"
    for urls' su' hits' html
  proof -
    from "2.prems"(3) html have "u \<noteq> u0" by auto
    with "2.prems"(2) have a: "u \<notin> set (ps @ [u0])" by simp
    from "2.prems"(1) have b: "u \<in> set (snd (search_pages E urls' (ps @ [u0]) su' hits'))"
      unfolding eq .
    from b a "2.prems"(3) have "fst (search_pages E urls' (ps @ [u0]) su' hits') = Inl e"
      by (rule ih)
    then show ?thesis unfolding eq .
  qed
  show ?case
  proof (cases "u0 \<in> set ps")
    case True
    then have eq: "search_pages E (u0 # urls) ps su hits = search_pages E urls ps su hits"
      by (rule search_pages_skip)
    from "2.IH"(1) [OF True] "2.prems" show ?thesis
      unfolding eq by blast
  next
    case new: False
    show ?thesis
    proof (cases "fetch E u0")
      case (Inl e0)
      with new have eq: "?stop (Inl e0)" by (rule search_pages_fetch_raises)
      with "2.prems"(1,2) have "u = u0" by simp
      with "2.prems"(3) Inl have "e0 = e" by simp
      with eq show ?thesis by simp
    next
      case html: (Inr html)
      show ?thesis
      proof (cases "hits_of E html u0")
        case (Inl e0)
        with new html have eq: "?stop (Inl e0)" by (rule search_pages_parse_raises)
        with "2.prems"(1,2) have "u = u0" by simp
        with "2.prems"(3) html show ?thesis by simp
      next
        case ph: (Inr page_hits)
        define new_hits where "new_hits = filter (\<lambda>hit. SearchHit.url hit \<notin> su) page_hits"
        then have nh: "filter (\<lambda>hit. SearchHit.url hit \<notin> su) page_hits = new_hits" by simp
        show ?thesis
        proof (cases "new_hits = []")
          case True
          with nh have "filter (\<lambda>hit. SearchHit.url hit \<notin> su) page_hits = []" by simp
          with new html ph have "?stop (Inr hits)" by (rule search_pages_no_new_hits)
          then show ?thesis using html by (rule stop)
        next
          case some: False
          show ?thesis
          proof (cases "result_limit E \<le> int (length (hits @ new_hits))")
            case True
            with new html ph nh some have "?stop (Inr (hits @ new_hits))"
              by (rule search_pages_max_results)
            then show ?thesis using html by (rule stop)
          next
            case more: False
            show ?thesis
            proof (cases "paged E")
              case True
              have eq: "search_pages E (u0 # urls) ps su hits
                  = search_pages E urls (ps @ [u0]) (su \<union> set (map SearchHit.url new_hits))
                      (hits @ new_hits)"
                using new html ph nh some more True by (rule search_pages_paged)
              show ?thesis
                using eq html
              proof (rule continue)
                assume "u \<in> set (snd (search_pages E urls (ps @ [u0])
                    (su \<union> set (map SearchHit.url new_hits)) (hits @ new_hits)))"
                  "u \<notin> set (ps @ [u0])" "fetch E u = Inl e"
                with "2.IH"(3) [OF new html ph nh [symmetric] some more] True
                show "fst (search_pages E urls (ps @ [u0])
                    (su \<union> set (map SearchHit.url new_hits)) (hits @ new_hits)) = Inl e"
                  by blast
              qed
            next
              case unpaged: False
              show ?thesis
              proof (cases "page_limit E \<le> int (length (ps @ [u0]))")
                case True
                with new html ph nh some more unpaged have "?stop (Inr (hits @ new_hits))"
                  by (rule search_pages_max_pages)
                then show ?thesis using html by (rule stop)
              next
                case room: False
                show ?thesis
                proof (cases "next_of E html u0 = None \<or> next_of E html u0 = Some [] \<or>
                    (\<exists>n. next_of E html u0 = Some n \<and> n \<in> set (ps @ [u0]))")
                  case True
                  with new html ph nh some more unpaged room have "?stop (Inr (hits @ new_hits))"
                    by (rule search_pages_no_next)
                  then show ?thesis using html by (rule stop)
                next
                  case False
                  then obtain n where n: "next_of E html u0 = Some n"
                    and n1: "n \<noteq> []" and n2: "n \<notin> set (ps @ [u0])"
                    by (cases "next_of E html u0") auto
                  have eq: "search_pages E (u0 # urls) ps su hits
                      = search_pages E (urls @ [n]) (ps @ [u0])
                          (su \<union> set (map SearchHit.url new_hits)) (hits @ new_hits)"
                    using new html ph nh some more unpaged room n n1 n2 by (rule search_pages_next)
                  have nn: "\<not> (n = [] \<or> n \<in> set (ps @ [u0]))" using n1 n2 by simp
                  show ?thesis
                    using eq html
                  proof (rule continue)
                    assume "u \<in> set (snd (search_pages E (urls @ [n]) (ps @ [u0])
                        (su \<union> set (map SearchHit.url new_hits)) (hits @ new_hits)))"
                      "u \<notin> set (ps @ [u0])" "fetch E u = Inl e"
                    with "2.IH"(2) [OF new html ph nh [symmetric] some more _ room n nn] unpaged
                    show "fst (search_pages E (urls @ [n]) (ps @ [u0])
                        (su \<union> set (map SearchHit.url new_hits)) (hits @ new_hits)) = Inl e"
                      by blast
                  qed
                qed
              qed
            qed
          qed
        qed
      qed
    qed
  qed
qed

lemma collect_keywords_raises:
  "\<forall>k \<in> set earlier. \<exists>hs. sf k = Inr hs \<Longrightarrow> sf keyword = Inl e \<Longrightarrow>
     collect_keywords sf (earlier @ keyword # later) h = Inl e"
  by (induction earlier arbitrary: h) auto

lemma search_fetch_failure:
  assumes "u \<in> set (snd (search W cfg d keyword ld))"
    and "fst (fetch_search_page W u) = Inl e"
  shows "fst (search W cfg d keyword ld) = Inl e"
  using assms unfolding search_def
  by (intro search_pages_fetch_failure [where u = u]) simp_all

lemma collect_search_hits_raises:
  assumes "\<not> search_use_selenium cfg" and "\<not> debug cfg"
    and "RunConfig.keywords cfg = earlier @ keyword # later"
    and "\<forall>k \<in> set earlier. \<exists>hs. fst (search W cfg d k ld) = Inr hs"
    and "fst (search W cfg d keyword ld) = Inl e"
  shows "collect_search_hits W cfg d ld = Inl e"
proof -
  have sf: "search_fn_of W cfg d ld = (\<lambda>k. fst (search W cfg d k ld))"
    using assms(1,2) by (simp add: search_fn_of_def fun_eq_iff)
  have "collect_keywords (search_fn_of W cfg d ld) (earlier @ keyword # later) [] = Inl e"
    unfolding sf using assms(4,5) by (rule collect_keywords_raises)
  then show ?thesis
    by (simp add: collect_search_hits_def assms(3))
qed

lemma run_media_search_failed:
  assumes "registry m = Some d" and "collect_search_hits W cfg d (last_days cfg) = Inl e"
  shows "run_media U W cfg registry pages pdf_dir rid rts m
     = ([], \<lparr>MediaStatus.media = m, MediaStatus.status = ustr ''failed'',
             MediaStatus.errors = [ustr ''Search failed for '' @ m @ ustr '': '' @ exn_message e]\<rparr>)"
  using assms by (simp add: run_media_def get_scraper_def)

lemma run_medias_statuses:
  "snd (run_medias U W cfg registry pages pdf_dir rid rts ms)
     = map (\<lambda>m. snd (run_media U W cfg registry pages pdf_dir rid rts m)) ms"
  by (induction ms) (simp_all add: split_def Let_def)

lemma run_media_status_media:
  "MediaStatus.media (snd (run_media U W cfg registry pages pdf_dir rid rts m)) = m"
proof -
  have r: "MediaStatus.media (snd (process_results U cfg pgs m pdf_dir rid rts results st))
      = MediaStatus.media st" for pgs results st
    by (induction results arbitrary: st) (auto simp: split_def Let_def)
  show ?thesis
    by (simp add: run_media_def Let_def r split: sum.splits)
qed

lemma fetch_search_page_first:
  "http_get W u 1 = Inr body \<Longrightarrow> fetch_search_page W u = (Inr body, [Request 1])"
  unfolding fetch_search_page_def upt_1_4 by simp

lemma fetch_search_page_second:
  "http_get W u 1 = Inl e1 \<Longrightarrow> exn_kind e1 = RequestException \<Longrightarrow> http_get W u 2 = Inr body \<Longrightarrow>
     fetch_search_page W u = (Inr body, [Request 1, Sleep 2, Request 2])"
  unfolding fetch_search_page_def upt_1_4 by simp

lemma fetch_search_page_third:
  "http_get W u 1 = Inl e1 \<Longrightarrow> exn_kind e1 = RequestException \<Longrightarrow>
   http_get W u 2 = Inl e2 \<Longrightarrow> exn_kind e2 = RequestException \<Longrightarrow> http_get W u 3 = Inr body \<Longrightarrow>
     fetch_search_page W u = (Inr body, [Request 1, Sleep 2, Request 2, Sleep 4, Request 3])"
  unfolding fetch_search_page_def upt_1_4 by simp

lemma fetch_search_page_other_exception:
  "http_get W u 1 = Inl e \<Longrightarrow> exn_kind e \<noteq> RequestException \<Longrightarrow>
     fetch_search_page W u = (Inl e, [Request 1])"
  unfolding fetch_search_page_def upt_1_4 by simp

text \<open>
  C8. On the path without the browser, a fetch of a search page makes at most three
  requests, and a request that raises a \<open>RequestException\<close> is retried: the fetch returns
  the body of the first request that is answered, the first, the second after a sleep of
  \<open>2\<close> seconds or the third after a further sleep of \<open>4\<close> seconds, and no request
  follows it; an exception of another class is not retried. When each of the three
  requests raises a \<open>RequestException\<close> the loop has slept \<open>2\<close>, \<open>4\<close> and \<open>8\<close> seconds
  after them and \<open>fetch_search_page\<close> raises \<open>RuntimeError\<close>. When that happens on a page
  that the search of a keyword visits (the rounds of the keywords before it having
  returned), the search raises, the media source gets the status \<open>failed\<close> with the
  message of the failure, and \<open>run_job\<close> goes on: its statuses are those of the
  configured media, one each and in order.
\<close>

theorem fetch_retried_then_source_failed:
  "length (filter is_request (snd (fetch_search_page W u))) \<le> 3
   \<and> (\<forall>body. http_get W u 1 = Inr body \<longrightarrow> fetch_search_page W u = (Inr body, [Request 1]))
   \<and> (\<forall>e1 body. http_get W u 1 = Inl e1 \<and> exn_kind e1 = RequestException \<and>
          http_get W u 2 = Inr body \<longrightarrow>
        fetch_search_page W u = (Inr body, [Request 1, Sleep 2, Request 2]))
   \<and> (\<forall>e1 e2 body. http_get W u 1 = Inl e1 \<and> exn_kind e1 = RequestException \<and>
          http_get W u 2 = Inl e2 \<and> exn_kind e2 = RequestException \<and>
          http_get W u 3 = Inr body \<longrightarrow>
        fetch_search_page W u
          = (Inr body, [Request 1, Sleep 2, Request 2, Sleep 4, Request 3]))
   \<and> (\<forall>e. http_get W u 1 = Inl e \<and> exn_kind e \<noteq> RequestException \<longrightarrow>
        fetch_search_page W u = (Inl e, [Request 1]))
   \<and> ((\<forall>n \<in> {1, 2, 3}. \<exists>e. http_get W u n = Inl e \<and> exn_kind e = RequestException) \<longrightarrow>
        fetch_search_page W u
          = (Inl (Exn RuntimeError (ustr ''Failed to fetch search page: '' @ u)),
             [Request 1, Sleep 2, Request 2, Sleep 4, Request 3, Sleep 8]))
   \<and> (\<not> search_use_selenium cfg \<and> \<not> debug cfg \<and> registry m = Some d \<and>
       RunConfig.keywords cfg = earlier @ keyword # later \<and>
       (\<forall>k \<in> set earlier. \<exists>hs. fst (search W cfg d k (last_days cfg)) = Inr hs) \<and>
       u \<in> set (snd (search W cfg d keyword (last_days cfg))) \<and>
       (\<forall>n \<in> {1, 2, 3}. \<exists>e. http_get W u n = Inl e \<and> exn_kind e = RequestException) \<longrightarrow>
        fst (search W cfg d keyword (last_days cfg))
          = Inl (Exn RuntimeError (ustr ''Failed to fetch search page: '' @ u))
        \<and> collect_search_hits W cfg d (last_days cfg)
            = Inl (Exn RuntimeError (ustr ''Failed to fetch search page: '' @ u))
        \<and> run_media U W cfg registry pages pdf_dir rid rts m
            = ([], \<lparr>MediaStatus.media = m, MediaStatus.status = ustr ''failed'',
                    MediaStatus.errors =
                      [ustr ''Search failed for '' @ m @ ustr '': Failed to fetch search page: '' @ u]\<rparr>))
   \<and> snd (run_job U W cfg registry pages pdf_dir rid rts)
        = map (\<lambda>m. snd (run_media U W cfg registry pages pdf_dir rid rts m)) (medias cfg)
   \<and> map MediaStatus.media (snd (run_job U W cfg registry pages pdf_dir rid rts)) = medias cfg"
proof -
  let ?e = "Exn RuntimeError (ustr ''Failed to fetch search page: '' @ u)"
  let ?down = "\<forall>n \<in> {1, 2, 3}. \<exists>e. http_get W u n = Inl e \<and> exn_kind e = RequestException"
  have n: "length (filter is_request (snd (fetch_search_page W u))) \<le> 3"
    using fetch_attempts_requests [of "http_get W u" u "[1..<4]"]
    by (simp add: fetch_search_page_def)
  have a1: "\<forall>body. http_get W u 1 = Inr body \<longrightarrow> fetch_search_page W u = (Inr body, [Request 1])"
    by (intro allI impI) (rule fetch_search_page_first)
  have a2: "\<forall>e1 body. http_get W u 1 = Inl e1 \<and> exn_kind e1 = RequestException \<and>
          http_get W u 2 = Inr body \<longrightarrow>
        fetch_search_page W u = (Inr body, [Request 1, Sleep 2, Request 2])"
    by (intro allI impI, elim conjE) (rule fetch_search_page_second)
  have a3: "\<forall>e1 e2 body. http_get W u 1 = Inl e1 \<and> exn_kind e1 = RequestException \<and>
          http_get W u 2 = Inl e2 \<and> exn_kind e2 = RequestException \<and>
          http_get W u 3 = Inr body \<longrightarrow>
        fetch_search_page W u
          = (Inr body, [Request 1, Sleep 2, Request 2, Sleep 4, Request 3])"
    by (intro allI impI, elim conjE) (rule fetch_search_page_third)
  have o: "\<forall>e. http_get W u 1 = Inl e \<and> exn_kind e \<noteq> RequestException \<longrightarrow>
        fetch_search_page W u = (Inl e, [Request 1])"
    by (intro allI impI, elim conjE) (rule fetch_search_page_other_exception)
  have f: "?down \<longrightarrow> fetch_search_page W u
      = (Inl ?e, [Request 1, Sleep 2, Request 2, Sleep 4, Request 3, Sleep 8])"
    by (intro impI) (rule fetch_search_page_all_fail)
  have r: "\<not> search_use_selenium cfg \<and> \<not> debug cfg \<and> registry m = Some d \<and>
       RunConfig.keywords cfg = earlier @ keyword # later \<and>
       (\<forall>k \<in> set earlier. \<exists>hs. fst (search W cfg d k (last_days cfg)) = Inr hs) \<and>
       u \<in> set (snd (search W cfg d keyword (last_days cfg))) \<and> ?down \<longrightarrow>
        fst (search W cfg d keyword (last_days cfg)) = Inl ?e
        \<and> collect_search_hits W cfg d (last_days cfg) = Inl ?e
        \<and> run_media U W cfg registry pages pdf_dir rid rts m
            = ([], \<lparr>MediaStatus.media = m, MediaStatus.status = ustr ''failed'',
                    MediaStatus.errors =
                      [ustr ''Search failed for '' @ m @ ustr '': Failed to fetch search page: '' @ u]\<rparr>)"
  proof (intro impI, elim conjE)
    assume h: "\<not> search_use_selenium cfg" "\<not> debug cfg" "registry m = Some d"
      "RunConfig.keywords cfg = earlier @ keyword # later"
      "\<forall>k \<in> set earlier. \<exists>hs. fst (search W cfg d k (last_days cfg)) = Inr hs"
      "u \<in> set (snd (search W cfg d keyword (last_days cfg)))" ?down
    from h(7) have "fetch_search_page W u
        = (Inl ?e, [Request 1, Sleep 2, Request 2, Sleep 4, Request 3, Sleep 8])"
      by (rule fetch_search_page_all_fail)
    then have "fst (fetch_search_page W u) = Inl ?e" by simp
    with h(6) have s: "fst (search W cfg d keyword (last_days cfg)) = Inl ?e"
      by (rule search_fetch_failure)
    with h(1,2,4,5) have c: "collect_search_hits W cfg d (last_days cfg) = Inl ?e"
      by (rule collect_search_hits_raises)
    from run_media_search_failed [of registry m d W cfg ?e U pages pdf_dir rid rts] h(3) c
    have "run_media U W cfg registry pages pdf_dir rid rts m
        = ([], \<lparr>MediaStatus.media = m, MediaStatus.status = ustr ''failed'',
                MediaStatus.errors =
                  [ustr ''Search failed for '' @ m @ ustr '': Failed to fetch search page: '' @ u]\<rparr>)"
      by (simp add: ustr_def)
    with s c show "fst (search W cfg d keyword (last_days cfg)) = Inl ?e
        \<and> collect_search_hits W cfg d (last_days cfg) = Inl ?e
        \<and> run_media U W cfg registry pages pdf_dir rid rts m
            = ([], \<lparr>MediaStatus.media = m, MediaStatus.status = ustr ''failed'',
                    MediaStatus.errors =
                      [ustr ''Search failed for '' @ m @ ustr '': Failed to fetch search page: '' @ u]\<rparr>)"
      by (intro conjI)
  qed
  have j: "snd (run_job U W cfg registry pages pdf_dir rid rts)
      = map (\<lambda>m. snd (run_media U W cfg registry pages pdf_dir rid rts m)) (medias cfg)"
    by (simp add: run_job_def run_medias_statuses)
  have "map MediaStatus.media (snd (run_job U W cfg registry pages pdf_dir rid rts))
      = map (\<lambda>m. m) (medias cfg)"
    unfolding j map_map by (rule map_cong) (simp_all add: run_media_status_media)
  then have k: "map MediaStatus.media (snd (run_job U W cfg registry pages pdf_dir rid rts))
      = medias cfg"
    by simp
  from n a1 a2 a3 o f r j k show ?thesis by (intro conjI)
qed

theorem fetch_retried_then_source_failed_witness:
  "fetch_search_page site_down (ustr ''s=bgl'')
     = (Inl (Exn RuntimeError (ustr ''Failed to fetch search page: s=bgl'')),
        [Request 1, Sleep 2, Request 2, Sleep 4, Request 3, Sleep 8])
   \<and> fetch_search_page flaky_site (ustr ''s=bgl'')
       = (Inr (ustr ''s=bgl''), [Request 1, Sleep 2, Request 2])
   \<and> fetch_search_page example_site (ustr ''s=bgl'') = (Inr (ustr ''s=bgl''), [Request 1])
   \<and> run_media ucd_fragment site_down example_config example_registry
        (\<lambda>m u. example_page) (ustr ''pdfs'') (ustr ''run'') (ustr ''now'') (ustr ''tageblatt.lu'')
      = ([], \<lparr>MediaStatus.media = ustr ''tageblatt.lu'', MediaStatus.status = ustr ''failed'',
              MediaStatus.errors =
                [ustr ''Search failed for tageblatt.lu: Failed to fetch search page: s=bgl'']\<rparr>)
   \<and> map MediaStatus.media
        (snd (run_job ucd_fragment site_down example_config example_registry
               (\<lambda>m u. example_page) (ustr ''pdfs'') (ustr ''run'') (ustr ''now'')))
      = [ustr ''tageblatt.lu'', ustr ''nowhere.lu'']
   \<and> map MediaStatus.status
        (snd (run_job ucd_fragment site_down example_config example_registry
               (\<lambda>m u. example_page) (ustr ''pdfs'') (ustr ''run'') (ustr ''now'')))
      = [ustr ''failed'', ustr ''failed'']"
proof -
  have h1: "\<not> search_use_selenium example_config" and h2: "\<not> debug example_config"
    by (simp_all add: example_config_def)
  have h3: "example_registry (ustr ''tageblatt.lu'') = Some example_media"
    by (simp add: example_registry_def)
  have h4: "RunConfig.keywords example_config = [] @ ustr ''bgl'' # [ustr ''bcl'']"
    by (simp add: example_config_def)
  have h4': "\<forall>k \<in> set []. \<exists>hs.
      fst (search site_down example_config example_media k (last_days example_config)) = Inr hs"
    by simp
  have h5: "ustr ''s=bgl'' \<in> set (snd (search site_down example_config example_media
      (ustr ''bgl'') (last_days example_config)))"
    by code_simp
  have h6: "\<forall>n \<in> {1, 2, 3}. \<exists>e. http_get site_down (ustr ''s=bgl'') n = Inl e \<and>
      exn_kind e = RequestException"
    by (simp add: site_down_def)
  have g1: "http_get flaky_site (ustr ''s=bgl'') 1 = Inl (Exn RequestException (ustr ''timeout''))"
    and g1': "exn_kind (Exn RequestException (ustr ''timeout'')) = RequestException"
    and g2: "http_get flaky_site (ustr ''s=bgl'') 2 = Inr (ustr ''s=bgl'')"
    by (simp_all add: flaky_site_def)
  have g0: "http_get example_site (ustr ''s=bgl'') 1 = Inr (ustr ''s=bgl'')"
    by (simp add: example_site_def)
  have s: "map MediaStatus.status
        (snd (run_job ucd_fragment site_down example_config example_registry
               (\<lambda>m u. example_page) (ustr ''pdfs'') (ustr ''run'') (ustr ''now'')))
      = [ustr ''failed'', ustr ''failed'']"
    by code_simp
  have m: "medias example_config = [ustr ''tageblatt.lu'', ustr ''nowhere.lu'']"
    by (simp add: example_config_def)
  have t: "ustr ''Failed to fetch search page: '' @ ustr ''s=bgl''
      = ustr ''Failed to fetch search page: s=bgl''"
    by (simp add: ustr_def)
  have t': "ustr ''Search failed for '' @ ustr ''tageblatt.lu'' @
        ustr '': Failed to fetch search page: '' @ ustr ''s=bgl''
      = ustr ''Search failed for tageblatt.lu: Failed to fetch search page: s=bgl''"
    by (simp add: ustr_def)
  note th = fetch_retried_then_source_failed
    [where cfg = example_config and registry = example_registry
       and m = "ustr ''tageblatt.lu''" and d = example_media and keyword = "ustr ''bgl''"
       and earlier = "[]" and later = "[ustr ''bcl'']" and W = site_down
       and u = "ustr ''s=bgl''" and U = ucd_fragment and pages = "\<lambda>m u. example_page"
       and pdf_dir = "ustr ''pdfs''" and rid = "ustr ''run''" and rts = "ustr ''now''"]
  note down = th [THEN conjunct2, THEN conjunct2, THEN conjunct2, THEN conjunct2, THEN conjunct2]
  from down [THEN conjunct1, THEN mp, OF h6]
  have a: "fetch_search_page site_down (ustr ''s=bgl'')
        = (Inl (Exn RuntimeError (ustr ''Failed to fetch search page: '' @ ustr ''s=bgl'')),
           [Request 1, Sleep 2, Request 2, Sleep 4, Request 3, Sleep 8])" .
  have hyps: "\<not> search_use_selenium example_config \<and> \<not> debug example_config \<and>
      example_registry (ustr ''tageblatt.lu'') = Some example_media \<and>
      RunConfig.keywords example_config = [] @ ustr ''bgl'' # [ustr ''bcl''] \<and>
      (\<forall>k \<in> set []. \<exists>hs.
         fst (search site_down example_config example_media k (last_days example_config)) = Inr hs) \<and>
      ustr ''s=bgl'' \<in> set (snd (search site_down example_config example_media
         (ustr ''bgl'') (last_days example_config))) \<and>
      (\<forall>n \<in> {1, 2, 3}. \<exists>e. http_get site_down (ustr ''s=bgl'') n = Inl e \<and>
         exn_kind e = RequestException)"
    using h1 h2 h3 h4 h4' h5 h6 by - (intro conjI, assumption+)
  from down [THEN conjunct2, THEN conjunct1, THEN mp, OF hyps, THEN conjunct2, THEN conjunct2]
  have b: "run_media ucd_fragment site_down example_config example_registry
        (\<lambda>m u. example_page) (ustr ''pdfs'') (ustr ''run'') (ustr ''now'') (ustr ''tageblatt.lu'')
      = ([], \<lparr>MediaStatus.media = ustr ''tageblatt.lu'', MediaStatus.status = ustr ''failed'',
              MediaStatus.errors =
                [ustr ''Search failed for '' @ ustr ''tageblatt.lu'' @
                 ustr '': Failed to fetch search page: '' @ ustr ''s=bgl'']\<rparr>)" .
  from down [THEN conjunct2, THEN conjunct2, THEN conjunct2]
  have c: "map MediaStatus.media
        (snd (run_job ucd_fragment site_down example_config example_registry
               (\<lambda>m u. example_page) (ustr ''pdfs'') (ustr ''run'') (ustr ''now'')))
      = medias example_config" .
  have g: "http_get flaky_site (ustr ''s=bgl'') 1 = Inl (Exn RequestException (ustr ''timeout'')) \<and>
      exn_kind (Exn RequestException (ustr ''timeout'')) = RequestException \<and>
      http_get flaky_site (ustr ''s=bgl'') 2 = Inr (ustr ''s=bgl'')"
    using g1 g1' g2 by - (intro conjI, assumption+)
  from fetch_retried_then_source_failed [where W = flaky_site and u = "ustr ''s=bgl''",
      THEN conjunct2, THEN conjunct2, THEN conjunct1, THEN spec, THEN spec, THEN mp, OF g]
  have d: "fetch_search_page flaky_site (ustr ''s=bgl'')
       = (Inr (ustr ''s=bgl''), [Request 1, Sleep 2, Request 2])" .
  from fetch_retried_then_source_failed [where W = example_site and u = "ustr ''s=bgl''",
      THEN conjunct2, THEN conjunct1, THEN spec, THEN mp, OF g0]
  have e: "fetch_search_page example_site (ustr ''s=bgl'') = (Inr (ustr ''s=bgl''), [Request 1])" .
  from a [unfolded t] d e b [unfolded t'] c [unfolded m] s show ?thesis
    by - (intro conjI, assumption+)
qed

section \<open>The merge across keywords\<close>

lemma merge_hit_keys: "fst ` set (merge_hit k hit h) = insert (SearchHit.url hit) (fst ` set h)"
  by (simp add: merge_hit_def Let_def dom_update)

lemma merge_hit_distinct: "distinct (map fst h) \<Longrightarrow> distinct (map fst (merge_hit k hit h))"
  by (simp add: merge_hit_def Let_def distinct_update)

lemma merge_hit_keywords:
  "keywords_of (merge_hit k hit h) u
     = (if u = SearchHit.url hit then insert k (keywords_of h u) else keywords_of h u)"
  by (simp add: merge_hit_def keywords_of_def Let_def update_conv' split: option.splits)

lemma merge_hits_keys:
  "fst ` set (merge_hits k hs h) = SearchHit.url ` set hs \<union> fst ` set h"
  by (induction hs arbitrary: h) (auto simp: merge_hit_keys)

lemma merge_hits_distinct: "distinct (map fst h) \<Longrightarrow> distinct (map fst (merge_hits k hs h))"
  by (induction hs arbitrary: h) (auto simp: merge_hit_distinct)

lemma merge_hits_keywords:
  "keywords_of (merge_hits k hs h) u
     = (if u \<in> SearchHit.url ` set hs then insert k (keywords_of h u) else keywords_of h u)"
  by (induction hs arbitrary: h) (auto simp: merge_hit_keywords)

lemma collect_keywords_result:
  assumes "collect_keywords sf ks h = Inr r"
  shows "fst ` set r = fst ` set h \<union> {u. producers sf ks u \<noteq> {}}"
    and "keywords_of r u = keywords_of h u \<union> producers sf ks u"
    and "distinct (map fst h) \<Longrightarrow> distinct (map fst r)"
  using assms
proof (induction ks arbitrary: h)
  case Nil
  {
    case 1 then show ?case by (simp add: producers_def)
  next
    case 2 then show ?case by (simp add: producers_def)
  next
    case 3 then show ?case by simp
  }
next
  case (Cons k ks)
  {
    case 1
    then obtain hs where hs: "sf k = Inr hs"
      and r: "collect_keywords sf ks (merge_hits k hs h) = Inr r"
      by (auto split: sum.splits)
    from Cons.IH(1) [OF r] hs show ?case
      by (auto simp: merge_hits_keys producers_def)
  next
    case 2
    then obtain hs where hs: "sf k = Inr hs"
      and r: "collect_keywords sf ks (merge_hits k hs h) = Inr r"
      by (auto split: sum.splits)
    from Cons.IH(2) [OF r] hs show ?case
      by (auto simp: merge_hits_keywords producers_def)
  next
    case 3
    then obtain hs where hs: "sf k = Inr hs"
      and r: "collect_keywords sf ks (merge_hits k hs h) = Inr r"
      by (auto split: sum.splits)
    from Cons.IH(3) [OF _ r] 3(1) show ?case
      by (simp add: merge_hits_distinct)
  }
qed

lemma collect_keywords_returns_iff:
  "(\<exists>r. collect_keywords sf ks h = Inr r) \<longleftrightarrow> (\<forall>k \<in> set ks. \<exists>hs. sf k = Inr hs)"
  by (induction ks arbitrary: h) (auto split: sum.splits)

lemma search_fn_of_keywords:
  "search_fn_of W (cfg\<lparr>RunConfig.keywords := ks\<rparr>) d ld = search_fn_of W cfg d ld"
  by (simp add: search_fn_of_def search_def search_with_selenium_def build_search_urls_def
      fun_eq_iff)

lemma map_of_dedup:
  "map_of (map (\<lambda>(u, p). (u, p\<lparr>payload.snippets := f (payload.snippets p)\<rparr>)) h) u
     = map_option (\<lambda>p. p\<lparr>payload.snippets := f (payload.snippets p)\<rparr>) (map_of h u)"
  using map_of_map [of "\<lambda>p. p\<lparr>payload.snippets := f (payload.snippets p)\<rparr>" h]
  by (simp only: comp_def)

lemma keywords_of_dedup:
  "keywords_of (map (\<lambda>(u, p). (u, p\<lparr>payload.snippets := f (payload.snippets p)\<rparr>)) h) u
     = keywords_of h u"
  unfolding keywords_of_def map_of_dedup by (cases "map_of h u") simp_all

lemma keys_dedup:
  "map fst (map (\<lambda>(u, p). (u, p\<lparr>payload.snippets := f (payload.snippets p)\<rparr>)) h) = map fst h"
  unfolding map_map by (rule map_cong) (simp_all add: split_def)

lemma collect_search_hits_result:
  assumes "collect_search_hits W cfg d ld = Inr merged"
  shows "distinct (map fst merged)"
    and "fst ` set merged = {u. producers (search_fn_of W cfg d ld) (RunConfig.keywords cfg) u \<noteq> {}}"
    and "keywords_of merged u = producers (search_fn_of W cfg d ld) (RunConfig.keywords cfg) u"
proof -
  let ?dedup = "map (\<lambda>(u, p). (u, p\<lparr>payload.snippets := unique_preserve_order (payload.snippets p)\<rparr>))"
  from assms obtain h where
    h: "collect_keywords (search_fn_of W cfg d ld) (RunConfig.keywords cfg) [] = Inr h"
    and m: "merged = ?dedup h"
    by (auto simp: collect_search_hits_def split: sum.splits)
  have keys: "map fst merged = map fst h"
    unfolding m by (rule keys_dedup)
  from collect_keywords_result(3) [OF h] keys show "distinct (map fst merged)"
    by simp
  have "fst ` set merged = set (map fst merged)" by simp
  also have "\<dots> = fst ` set h" unfolding keys by simp
  finally show "fst ` set merged
      = {u. producers (search_fn_of W cfg d ld) (RunConfig.keywords cfg) u \<noteq> {}}"
    using collect_keywords_result(1) [OF h] by simp
  have "keywords_of merged u = keywords_of h u"
    unfolding m by (rule keywords_of_dedup)
  with collect_keywords_result(2) [OF h, of u]
  show "keywords_of merged u = producers (search_fn_of W cfg d ld) (RunConfig.keywords cfg) u"
    by (simp add: keywords_of_def)
qed

lemma collect_search_hits_returns_iff:
  "(\<exists>merged. collect_search_hits W cfg d ld = Inr merged)
     \<longleftrightarrow> (\<forall>k \<in> set (RunConfig.keywords cfg). \<exists>hs. search_fn_of W cfg d ld k = Inr hs)"
  using collect_keywords_returns_iff [of "search_fn_of W cfg d ld" "RunConfig.keywords cfg" "[]"]
  by (auto simp: collect_search_hits_def split: sum.splits)

lemma producers_set: "set ks' = set ks \<Longrightarrow> producers sf ks' u = producers sf ks u"
  by (simp add: producers_def)

lemma producers_nonempty:
  "producers sf ks u \<noteq> {}
     \<longleftrightarrow> (\<exists>k \<in> set ks. \<exists>hs. sf k = Inr hs \<and> u \<in> SearchHit.url ` set hs)"
  unfolding producers_def by blast

lemma collect_search_hits_entry:
  assumes "collect_search_hits W cfg d ld = Inr merged" and "(u, p) \<in> set merged"
  shows "payload.keywords p = producers (search_fn_of W cfg d ld) (RunConfig.keywords cfg) u"
proof -
  have "distinct (map fst merged)"
    using assms(1) by (rule collect_search_hits_result(1))
  then have "map_of merged u = Some p"
    using assms(2) by (rule map_of_is_SomeI)
  then have "keywords_of merged u = payload.keywords p"
    by (simp add: keywords_of_def)
  with collect_search_hits_result(3) [OF assms(1), of u] show ?thesis
    by simp
qed

lemma collect_search_hits_reordered:
  assumes m: "collect_search_hits W cfg d ld = Inr merged"
    and ks': "set ks' = set (RunConfig.keywords cfg)"
  shows "\<exists>merged'. collect_search_hits W (cfg\<lparr>RunConfig.keywords := ks'\<rparr>) d ld = Inr merged' \<and>
      fst ` set merged' = fst ` set merged \<and> (\<forall>u. keywords_of merged' u = keywords_of merged u)"
proof -
  let ?cfg' = "cfg\<lparr>RunConfig.keywords := ks'\<rparr>"
  have sf: "search_fn_of W ?cfg' d ld = search_fn_of W cfg d ld"
    by (rule search_fn_of_keywords)
  have k: "RunConfig.keywords ?cfg' = ks'" by simp
  from m have "\<exists>merged. collect_search_hits W cfg d ld = Inr merged" ..
  then have "\<forall>k \<in> set (RunConfig.keywords cfg). \<exists>hs. search_fn_of W cfg d ld k = Inr hs"
    by (simp only: collect_search_hits_returns_iff)
  then have "\<forall>k \<in> set (RunConfig.keywords ?cfg'). \<exists>hs. search_fn_of W ?cfg' d ld k = Inr hs"
    unfolding sf k ks' .
  then have "\<exists>merged'. collect_search_hits W ?cfg' d ld = Inr merged'"
    by (simp only: collect_search_hits_returns_iff)
  then obtain merged' where m': "collect_search_hits W ?cfg' d ld = Inr merged'" ..
  have p: "producers (search_fn_of W ?cfg' d ld) (RunConfig.keywords ?cfg') u
      = producers (search_fn_of W cfg d ld) (RunConfig.keywords cfg) u" for u
    unfolding sf k using ks' by (rule producers_set)
  have a: "fst ` set merged' = fst ` set merged"
    unfolding collect_search_hits_result(2) [OF m'] collect_search_hits_result(2) [OF m]
    by (simp only: p)
  have b: "keywords_of merged' u = keywords_of merged u" for u
    unfolding collect_search_hits_result(3) [OF m'] collect_search_hits_result(3) [OF m]
    by (rule p)
  from m' a b show ?thesis by blast
qed


text \<open>
  C1. For a media source and the rounds of its keywords, the dictionary returned by
  \<open>_collect_search_hits\<close> has exactly one entry for each URL that some round produced,
  the keyword set of an entry is the set of the keywords whose round produced a hit with
  its URL, and processing the keywords in another order (any list with the same
  keywords) returns too, with the same URLs and the same keyword set for each.
\<close>

theorem collect_search_hits_union:
  assumes "collect_search_hits W cfg d ld = Inr merged"
  shows "distinct (map fst merged)
    \<and> fst ` set merged
        = {u. \<exists>k \<in> set (RunConfig.keywords cfg). \<exists>hs. search_fn_of W cfg d ld k = Inr hs \<and>
              u \<in> SearchHit.url ` set hs}
    \<and> (\<forall>u p. (u, p) \<in> set merged \<longrightarrow>
          payload.keywords p
            = {k \<in> set (RunConfig.keywords cfg). \<exists>hs. search_fn_of W cfg d ld k = Inr hs \<and>
                 u \<in> SearchHit.url ` set hs})
    \<and> (set ks' = set (RunConfig.keywords cfg) \<longrightarrow>
          (\<exists>merged'. collect_search_hits W (cfg\<lparr>RunConfig.keywords := ks'\<rparr>) d ld = Inr merged' \<and>
             fst ` set merged' = fst ` set merged \<and>
             (\<forall>u. keywords_of merged' u = keywords_of merged u)))"
proof -
  have c1: "distinct (map fst merged)"
    using assms by (rule collect_search_hits_result(1))
  have c2: "fst ` set merged
      = {u. \<exists>k \<in> set (RunConfig.keywords cfg). \<exists>hs. search_fn_of W cfg d ld k = Inr hs \<and>
            u \<in> SearchHit.url ` set hs}"
    unfolding collect_search_hits_result(2) [OF assms] producers_nonempty ..
  have c3: "\<forall>u p. (u, p) \<in> set merged \<longrightarrow>
      payload.keywords p
        = {k \<in> set (RunConfig.keywords cfg). \<exists>hs. search_fn_of W cfg d ld k = Inr hs \<and>
             u \<in> SearchHit.url ` set hs}"
    using collect_search_hits_entry [OF assms] unfolding producers_def by blast
  have c4: "set ks' = set (RunConfig.keywords cfg) \<longrightarrow>
      (\<exists>merged'. collect_search_hits W (cfg\<lparr>RunConfig.keywords := ks'\<rparr>) d ld = Inr merged' \<and>
         fst ` set merged' = fst ` set merged \<and>
         (\<forall>u. keywords_of merged' u = keywords_of merged u))"
    using collect_search_hits_reordered [OF assms] by blast
  from c1 c2 c3 c4 show ?thesis by (intro conjI)
qed

theorem collect_search_hits_union_witness:
  "(case collect_search_hits example_site example_config example_media 2 of
      Inl e \<Rightarrow> []
    | Inr merged \<Rightarrow> map (\<lambda>(u, p). (u, payload.keywords p)) merged)
   = [(ustr ''story'', {ustr ''bgl'', ustr ''bcl''}),
      (ustr ''s=bgl/a'', {ustr ''bgl''}), (ustr ''s=bgl+/a'', {ustr ''bgl''}),
      (ustr ''s=bcl/a'', {ustr ''bcl''}), (ustr ''s=bcl+/a'', {ustr ''bcl''})]
   \<and> (case collect_search_hits example_site
            (example_config\<lparr>RunConfig.keywords := [ustr ''bcl'', ustr ''bgl'']\<rparr>) example_media 2 of
         Inl e \<Rightarrow> {}
       | Inr merged \<Rightarrow> keywords_of merged (ustr ''story''))
      = {ustr ''bgl'', ustr ''bcl''}"
proof -
  have a: "(case collect_search_hits example_site example_config example_media 2 of
      Inl e \<Rightarrow> []
    | Inr merged \<Rightarrow> map (\<lambda>(u, p). (u, payload.keywords p)) merged)
   = [(ustr ''story'', {ustr ''bgl'', ustr ''bcl''}),
      (ustr ''s=bgl/a'', {ustr ''bgl''}), (ustr ''s=bgl+/a'', {ustr ''bgl''}),
      (ustr ''s=bcl/a'', {ustr ''bcl''}), (ustr ''s=bcl+/a'', {ustr ''bcl''})]"
    by code_simp
  have b: "(case collect_search_hits example_site
            (example_config\<lparr>RunConfig.keywords := [ustr ''bcl'', ustr ''bgl'']\<rparr>) example_media 2 of
         Inl e \<Rightarrow> {}
       | Inr merged \<Rightarrow> keywords_of merged (ustr ''story''))
      = {ustr ''bgl'', ustr ''bcl''}"
    by code_simp
  obtain merged where m: "collect_search_hits example_site example_config example_media 2 = Inr merged"
  proof (cases "collect_search_hits example_site example_config example_media 2")
    case (Inl e)
    with a show ?thesis by simp
  next
    case (Inr merged)
    then show ?thesis by (rule that)
  qed
  from collect_search_hits_union [OF m] have "distinct (map fst merged)"
    by (rule conjunct1)
  from this a b show ?thesis
    by - (rule conjI, assumption, assumption)
qed

section \<open>Article records\<close>

lemma status_distinct:
  "ustr ''ok'' \<noteq> ustr ''failed''" "ustr ''ok'' \<noteq> ustr ''skipped''"
  "ustr ''skipped'' \<noteq> ustr ''failed''" "ustr ''skipped'' \<noteq> ustr ''ok''"
  "ustr ''failed'' \<noteq> ustr ''ok''" "ustr ''failed'' \<noteq> ustr ''skipped''"
  by (simp_all add: ustr_def)

lemma is_substring_iff: "is_substring needle hay \<longleftrightarrow> (\<exists>pre post. hay = pre @ needle @ post)"
proof (induction hay)
  case Nil
  then show ?case by simp
next
  case (Cons c cs)
  have "(\<exists>pre post. c # cs = pre @ needle @ post)
      \<longleftrightarrow> (\<exists>post. c # cs = needle @ post) \<or> (\<exists>pre post. cs = pre @ needle @ post)"
  proof
    assume "\<exists>pre post. c # cs = pre @ needle @ post"
    then obtain pre post where e: "c # cs = pre @ needle @ post" by blast
    show "(\<exists>post. c # cs = needle @ post) \<or> (\<exists>pre post. cs = pre @ needle @ post)"
    proof (cases pre)
      case Nil
      with e show ?thesis by auto
    next
      case (Cons p ps)
      with e have "cs = ps @ needle @ post" by simp
      then show ?thesis by blast
    qed
  next
    assume "(\<exists>post. c # cs = needle @ post) \<or> (\<exists>pre post. cs = pre @ needle @ post)"
    then show "\<exists>pre post. c # cs = pre @ needle @ post"
    proof
      assume "\<exists>post. c # cs = needle @ post"
      then obtain post where "c # cs = [] @ needle @ post" by auto
      then show ?thesis by blast
    next
      assume "\<exists>pre post. cs = pre @ needle @ post"
      then obtain pre post where "c # cs = (c # pre) @ needle @ post" by auto
      then show ?thesis by blast
    qed
  qed
  with Cons show ?case
    by (simp add: prefix_def)
qed

text \<open>
  The three shapes of the record that \<open>_process_article\<close> returns: the one of the
  \<open>except\<close> branch, or, the visible text having been read, the skipped one when no
  keyword matches and the matched one when the page has been printed.
\<close>

lemma process_article_outcome:
  fixes U page m u ks sn st sd pdf rid rts
  defines "r \<equiv> process_article U page m u ks sn st sd pdf rid rts"
  shows "(\<exists>e. ArticleRecord.status r = ustr ''failed'' \<and> matched_keywords r = [] \<and>
            per_article_pdf_path r = None \<and>
            ArticleRecord.errors r = exn_message e # error_artifacts page)
       \<or> (\<exists>visible. visible_text page = Inr visible \<and>
            filter (\<lambda>kw. is_substring (normalize_text U kw) (normalize_text U visible)) ks = [] \<and>
            ArticleRecord.status r = ustr ''skipped'' \<and> matched_keywords r = [] \<and>
            per_article_pdf_path r = None \<and>
            ArticleRecord.errors r = [ustr ''No keyword match found in visible text.''])
       \<or> (\<exists>visible path. visible_text page = Inr visible \<and> print_pdf page = None \<and>
            filter (\<lambda>kw. is_substring (normalize_text U kw) (normalize_text U visible)) ks \<noteq> [] \<and>
            ArticleRecord.status r = ustr ''ok'' \<and>
            matched_keywords r
              = filter (\<lambda>kw. is_substring (normalize_text U kw) (normalize_text U visible)) ks \<and>
            per_article_pdf_path r = Some path \<and> ArticleRecord.errors r = [])"
proof -
  have failed: "\<exists>e'. ArticleRecord.status (failed_record page rid rts m u e t p du s) = ustr ''failed'' \<and>
      matched_keywords (failed_record page rid rts m u e t p du s) = [] \<and>
      per_article_pdf_path (failed_record page rid rts m u e t p du s) = None \<and>
      ArticleRecord.errors (failed_record page rid rts m u e t p du s)
        = exn_message e' # error_artifacts page" for e t p du s
    by (rule exI [of _ e]) (simp add: failed_record_def)
  show ?thesis
  proof (cases "load page")
    case (Some e)
    then have "r = failed_record page rid rts m u e st None True sn"
      by (simp add: r_def process_article_def)
    with failed show ?thesis by simp
  next
    case loaded: None
    show ?thesis
    proof (cases "detected_title page")
      case (Inl e)
      with loaded have "r = failed_record page rid rts m u e st None True sn"
        by (simp add: r_def process_article_def)
      with failed show ?thesis by simp
    next
      case t: (Inr found_title)
      define title' where "title' = (if truthy found_title then found_title else st)"
      show ?thesis
      proof (cases "detected_date page")
        case (Inl e)
        with loaded t have "r = failed_record page rid rts m u e title' None True sn"
          by (simp add: r_def process_article_def title'_def)
        with failed show ?thesis by simp
      next
        case d: (Inr found_date)
        define dated where "dated = (if truthy found_date then Inr (found_date, False)
            else (case sd of
                    Some sd' \<Rightarrow>
                      (case astimezone sd' utc of
                         Inl e \<Rightarrow> Inl e
                       | Inr at_utc \<Rightarrow> Inr (Some (isoformat page at_utc), False))
                  | None \<Rightarrow> Inr (None, True)))"
        show ?thesis
        proof (cases dated)
          case (Inl e)
          note raised = Inl [unfolded dated_def]
          with loaded t d have "r = failed_record page rid rts m u e title' None True sn"
            by (simp add: r_def process_article_def title'_def)
          with failed show ?thesis by simp
        next
        case (Inr pd)
        note pd = Inr [unfolded dated_def]
        show ?thesis
        proof (cases "dump page")
          case (Some e)
          with loaded t d pd have "r = failed_record page rid rts m u e title' (fst pd) (snd pd) sn"
            by (simp add: r_def process_article_def title'_def split_def Let_def)
          with failed show ?thesis by simp
        next
          case dumped: None
          show ?thesis
          proof (cases "visible_text page")
            case (Inl e)
            with loaded t d dumped pd
            have "r = failed_record page rid rts m u e title' (fst pd) (snd pd) sn"
              by (simp add: r_def process_article_def title'_def split_def Let_def)
            with failed show ?thesis by simp
          next
            case v: (Inr visible)
            define matched where
              "matched = filter (\<lambda>kw. is_substring (normalize_text U kw) (normalize_text U visible)) ks"
            define sn' where "sn' = (if sn = [] \<and> visible \<noteq> []
                then (let snippet_text = take 200 (strip (isspace U) (ws_sub (isspace U) visible))
                      in if snippet_text \<noteq> [] then [snippet_text] else sn)
                else sn)"
            show ?thesis
            proof (cases "matched = []")
              case True
              with loaded t d dumped v pd
              have "ArticleRecord.status r = ustr ''skipped'' \<and> matched_keywords r = [] \<and>
                  per_article_pdf_path r = None \<and>
                  ArticleRecord.errors r = [ustr ''No keyword match found in visible text.'']"
                by (simp add: r_def process_article_def matched_def split_def Let_def
                    del: filter_empty_conv)
              with v True show ?thesis
                unfolding matched_def by blast
            next
              case some: False
              show ?thesis
              proof (cases "print_pdf page")
                case (Some e)
                with loaded t d dumped v some pd
                have "r = failed_record page rid rts m u e title' (fst pd) (snd pd) sn'"
                  by (simp add: r_def process_article_def title'_def sn'_def matched_def
                      split_def Let_def del: filter_empty_conv)
                with failed show ?thesis by simp
              next
                case printed: None
                with loaded t d dumped v some pd
                have "ArticleRecord.status r = ustr ''ok'' \<and> matched_keywords r = matched \<and>
                    (\<exists>path. per_article_pdf_path r = Some path) \<and> ArticleRecord.errors r = []"
                  by (simp add: r_def process_article_def matched_def split_def Let_def
                      del: filter_empty_conv)
                with v printed some show ?thesis
                  unfolding matched_def by blast
              qed
            qed
          qed
        qed
        qed
      qed
    qed
  qed
qed

text \<open>
  C2. Every record returned by \<open>_process_article\<close> has one of the three statuses, and:
  with status \<open>ok\<close> the path of the article's PDF is present and \<open>matched_keywords\<close> is
  not empty; with status \<open>skipped\<close> \<open>matched_keywords\<close> is empty and \<open>errors\<close> is the one
  explanatory message; with status \<open>failed\<close> \<open>errors\<close> is not empty.
\<close>

theorem process_article_invariant:
  "(let r = process_article U page m u ks sn st sd pdf rid rts
    in (ArticleRecord.status r = ustr ''ok'' \<longrightarrow>
          per_article_pdf_path r \<noteq> None \<and> matched_keywords r \<noteq> [])
     \<and> (ArticleRecord.status r = ustr ''skipped'' \<longrightarrow>
          matched_keywords r = [] \<and> length (ArticleRecord.errors r) = 1 \<and>
          ArticleRecord.errors r = [ustr ''No keyword match found in visible text.''])
     \<and> (ArticleRecord.status r = ustr ''failed'' \<longrightarrow> ArticleRecord.errors r \<noteq> [])
     \<and> (ArticleRecord.status r = ustr ''ok'' \<or> ArticleRecord.status r = ustr ''skipped'' \<or>
         ArticleRecord.status r = ustr ''failed''))"
proof -
  define r where "r = process_article U page m u ks sn st sd pdf rid rts"
  from process_article_outcome [of U page m u ks sn st sd pdf rid rts]
  consider
    (failed) "ArticleRecord.status r = ustr ''failed''" "ArticleRecord.errors r \<noteq> []"
  | (skipped) "ArticleRecord.status r = ustr ''skipped''" "matched_keywords r = []"
      "ArticleRecord.errors r = [ustr ''No keyword match found in visible text.'']"
  | (ok) "ArticleRecord.status r = ustr ''ok''" "matched_keywords r \<noteq> []"
      "per_article_pdf_path r \<noteq> None"
    unfolding r_def [symmetric] by (elim disjE exE conjE) simp_all
  then have "(ArticleRecord.status r = ustr ''ok'' \<longrightarrow>
          per_article_pdf_path r \<noteq> None \<and> matched_keywords r \<noteq> [])
     \<and> (ArticleRecord.status r = ustr ''skipped'' \<longrightarrow>
          matched_keywords r = [] \<and> length (ArticleRecord.errors r) = 1 \<and>
          ArticleRecord.errors r = [ustr ''No keyword match found in visible text.''])
     \<and> (ArticleRecord.status r = ustr ''failed'' \<longrightarrow> ArticleRecord.errors r \<noteq> [])
     \<and> (ArticleRecord.status r = ustr ''ok'' \<or> ArticleRecord.status r = ustr ''skipped'' \<or>
         ArticleRecord.status r = ustr ''failed'')"
    by cases (simp_all add: status_distinct)
  then show ?thesis
    unfolding r_def Let_def .
qed

theorem process_article_invariant_witness:
  "ArticleRecord.status (process_article ucd_fragment example_page (ustr ''tageblatt.lu'')
       (ustr ''story'') [ustr ''BCL'', ustr ''bgl''] [] None None (ustr ''pdfs'') (ustr ''run'')
       (ustr ''now'')) = ustr ''ok''
   \<and> per_article_pdf_path (process_article ucd_fragment example_page (ustr ''tageblatt.lu'')
       (ustr ''story'') [ustr ''BCL'', ustr ''bgl''] [] None None (ustr ''pdfs'') (ustr ''run'')
       (ustr ''now'')) = Some (ustr ''pdfs/tageblatt.lu_rates.pdf'')
   \<and> matched_keywords (process_article ucd_fragment example_page (ustr ''tageblatt.lu'')
       (ustr ''story'') [ustr ''BCL'', ustr ''bgl''] [] None None (ustr ''pdfs'') (ustr ''run'')
       (ustr ''now'')) = [ustr ''BCL'']
   \<and> ArticleRecord.status (process_article ucd_fragment example_page (ustr ''tageblatt.lu'')
       (ustr ''story'') [ustr ''bgl''] [] None None (ustr ''pdfs'') (ustr ''run'')
       (ustr ''now'')) = ustr ''skipped''
   \<and> ArticleRecord.status (process_article ucd_fragment printer_down (ustr ''tageblatt.lu'')
       (ustr ''story'') [ustr ''BCL''] [] None None (ustr ''pdfs'') (ustr ''run'')
       (ustr ''now'')) = ustr ''failed''"
proof -
  have a: "ArticleRecord.status (process_article ucd_fragment example_page (ustr ''tageblatt.lu'')
       (ustr ''story'') [ustr ''BCL'', ustr ''bgl''] [] None None (ustr ''pdfs'') (ustr ''run'')
       (ustr ''now'')) = ustr ''ok''"
    by code_simp
  have b: "per_article_pdf_path (process_article ucd_fragment example_page (ustr ''tageblatt.lu'')
       (ustr ''story'') [ustr ''BCL'', ustr ''bgl''] [] None None (ustr ''pdfs'') (ustr ''run'')
       (ustr ''now'')) = Some (ustr ''pdfs/tageblatt.lu_rates.pdf'')"
    by code_simp
  have c: "ArticleRecord.status (process_article ucd_fragment example_page (ustr ''tageblatt.lu'')
       (ustr ''story'') [ustr ''bgl''] [] None None (ustr ''pdfs'') (ustr ''run'')
       (ustr ''now'')) = ustr ''skipped''"
    by code_simp
  have d: "ArticleRecord.status (process_article ucd_fragment printer_down (ustr ''tageblatt.lu'')
       (ustr ''story'') [ustr ''BCL''] [] None None (ustr ''pdfs'') (ustr ''run'')
       (ustr ''now'')) = ustr ''failed''"
    by code_simp
  have e: "matched_keywords (process_article ucd_fragment example_page (ustr ''tageblatt.lu'')
       (ustr ''story'') [ustr ''BCL'', ustr ''bgl''] [] None None (ustr ''pdfs'') (ustr ''run'')
       (ustr ''now'')) = [ustr ''BCL'']"
    by code_simp
  from process_article_invariant [of ucd_fragment example_page "ustr ''tageblatt.lu''"
      "ustr ''story''" "[ustr ''BCL'', ustr ''bgl'']" "[]" None None "ustr ''pdfs''" "ustr ''run''"
      "ustr ''now''"] a
  have "per_article_pdf_path (process_article ucd_fragment example_page (ustr ''tageblatt.lu'')
       (ustr ''story'') [ustr ''BCL'', ustr ''bgl''] [] None None (ustr ''pdfs'') (ustr ''run'')
       (ustr ''now'')) \<noteq> None"
    unfolding Let_def by blast
  from this a b e c d show ?thesis
    by - (intro conjI, assumption+)
qed

text \<open>
  C6, as the code has it. When the processing of an article raises nothing (the record
  is not \<open>failed\<close>), a keyword is in \<open>matched_keywords\<close> exactly when it is one of the
  configured keywords and its normal form occurs in the normal form of the visible text of
  the page, as a plain substring at any position. A \<open>failed\<close> record has no matched
  keyword, also when a keyword had matched before the failure.
\<close>

theorem matched_keywords_substring:
  "(let r = process_article U page m u ks sn st sd pdf rid rts
    in (ArticleRecord.status r \<noteq> ustr ''failed'' \<longrightarrow>
          (\<exists>visible. visible_text page = Inr visible \<and>
             (\<forall>kw. kw \<in> set (matched_keywords r) \<longleftrightarrow>
                kw \<in> set ks \<and>
                (\<exists>pre post. normalize_text U visible = pre @ normalize_text U kw @ post))))
     \<and> (ArticleRecord.status r = ustr ''failed'' \<longrightarrow> matched_keywords r = []))"
proof -
  define r where "r = process_article U page m u ks sn st sd pdf rid rts"
  let ?matches = "\<lambda>visible kw. is_substring (normalize_text U kw) (normalize_text U visible)"
  from process_article_outcome [of U page m u ks sn st sd pdf rid rts]
  consider
    (failed) "ArticleRecord.status r = ustr ''failed''" "matched_keywords r = []"
  | (returned) visible where "ArticleRecord.status r \<noteq> ustr ''failed''"
      "visible_text page = Inr visible" "matched_keywords r = filter (?matches visible) ks"
    unfolding r_def [symmetric]
  proof (elim disjE exE conjE)
    fix e
    assume "ArticleRecord.status r = ustr ''failed''" "matched_keywords r = []"
      and f: "\<lbrakk>ArticleRecord.status r = ustr ''failed''; matched_keywords r = []\<rbrakk> \<Longrightarrow> thesis"
    then show thesis by blast
  next
    fix visible
    assume "visible_text page = Inr visible" "filter (?matches visible) ks = []"
      "ArticleRecord.status r = ustr ''skipped''" "matched_keywords r = []"
      and d: "\<And>visible. \<lbrakk>ArticleRecord.status r \<noteq> ustr ''failed'';
        visible_text page = Inr visible; matched_keywords r = filter (?matches visible) ks\<rbrakk>
        \<Longrightarrow> thesis"
    then show thesis by (simp add: status_distinct del: filter_empty_conv)
  next
    fix visible path
    assume "visible_text page = Inr visible" "ArticleRecord.status r = ustr ''ok''"
      "matched_keywords r = filter (?matches visible) ks"
      and d: "\<And>visible. \<lbrakk>ArticleRecord.status r \<noteq> ustr ''failed'';
        visible_text page = Inr visible; matched_keywords r = filter (?matches visible) ks\<rbrakk>
        \<Longrightarrow> thesis"
    then show thesis by (simp add: status_distinct)
  qed
  then have "(ArticleRecord.status r \<noteq> ustr ''failed'' \<longrightarrow>
          (\<exists>visible. visible_text page = Inr visible \<and>
             (\<forall>kw. kw \<in> set (matched_keywords r) \<longleftrightarrow>
                kw \<in> set ks \<and>
                (\<exists>pre post. normalize_text U visible = pre @ normalize_text U kw @ post))))
     \<and> (ArticleRecord.status r = ustr ''failed'' \<longrightarrow> matched_keywords r = [])"
  proof cases
    case failed
    then show ?thesis by simp
  next
    case (returned visible)
    have "kw \<in> set (matched_keywords r) \<longleftrightarrow>
        kw \<in> set ks \<and> (\<exists>pre post. normalize_text U visible = pre @ normalize_text U kw @ post)"
      for kw
      unfolding returned(3) by (simp add: is_substring_iff)
    with returned(1,2) show ?thesis by blast
  qed
  then show ?thesis
    unfolding r_def Let_def .
qed

theorem matched_keywords_substring_witness:
  "ArticleRecord.status (process_article ucd_fragment example_page (ustr ''tageblatt.lu'')
       (ustr ''story'') [ustr ''BCL'', ustr ''bgl''] [] None None (ustr ''pdfs'') (ustr ''run'')
       (ustr ''now'')) \<noteq> ustr ''failed''
   \<and> visible_text example_page = Inr (ustr ''The ABCLX fund'')
   \<and> normalize_text ucd_fragment (ustr ''The ABCLX fund'')
       = ustr ''the a'' @ normalize_text ucd_fragment (ustr ''BCL'') @ ustr ''x fund''
   \<and> set (matched_keywords (process_article ucd_fragment example_page (ustr ''tageblatt.lu'')
       (ustr ''story'') [ustr ''BCL'', ustr ''bgl''] [] None None (ustr ''pdfs'') (ustr ''run'')
       (ustr ''now''))) = {ustr ''BCL''}"
proof -
  have a: "ArticleRecord.status (process_article ucd_fragment example_page (ustr ''tageblatt.lu'')
       (ustr ''story'') [ustr ''BCL'', ustr ''bgl''] [] None None (ustr ''pdfs'') (ustr ''run'')
       (ustr ''now'')) \<noteq> ustr ''failed''"
    by code_simp
  have b: "visible_text example_page = Inr (ustr ''The ABCLX fund'')"
    by (simp add: example_page_def)
  have c: "normalize_text ucd_fragment (ustr ''The ABCLX fund'')
       = ustr ''the a'' @ normalize_text ucd_fragment (ustr ''BCL'') @ ustr ''x fund''"
    by code_simp
  have d: "set (matched_keywords (process_article ucd_fragment example_page (ustr ''tageblatt.lu'')
       (ustr ''story'') [ustr ''BCL'', ustr ''bgl''] [] None None (ustr ''pdfs'') (ustr ''run'')
       (ustr ''now''))) = {ustr ''BCL''}"
    by code_simp
  from matched_keywords_substring [of ucd_fragment example_page "ustr ''tageblatt.lu''"
      "ustr ''story''" "[ustr ''BCL'', ustr ''bgl'']" "[]" None None "ustr ''pdfs''" "ustr ''run''"
      "ustr ''now''"] a
  have "\<exists>visible. visible_text example_page = Inr visible"
    unfolding Let_def by blast
  from this a b c d show ?thesis
    by - (intro conjI, assumption+)
qed

text \<open>
  The claim C6 as the specification states it fails where printing the page raises: the
  normal form of the keyword BCL occurs in the normal form of the visible text, and the
  record returned has no matched keyword.
\<close>

theorem matched_keywords_counterexample:
  "\<not> (ustr ''BCL'' \<in> set (matched_keywords (process_article ucd_fragment printer_down
          (ustr ''tageblatt.lu'') (ustr ''story'') [ustr ''BCL''] [] None None (ustr ''pdfs'')
          (ustr ''run'') (ustr ''now'')))
       \<longleftrightarrow> is_substring (normalize_text ucd_fragment (ustr ''BCL''))
             (normalize_text ucd_fragment (ustr ''The ABCLX fund'')))
   \<and> visible_text printer_down = Inr (ustr ''The ABCLX fund'')"
  by code_simp

end
